theory Spec2Isabelle
  imports Main "HOL-Library.Word"
begin

unbundle bit_operations_syntax

section \<open>Data model of spiflash.h\<close>

type_synonym u8 = "8 word"
type_synonym u16 = "16 word"
type_synonym u32 = "32 word"

text \<open>Result codes: the C \<open>int\<close> constants of spiflash.h, with \<open>_SPIFLASH_ERR_BASE = -24000\<close>.\<close>

definition SPIFLASH_OK :: int where
  "SPIFLASH_OK = 0"

definition SPIFLASH_ERR_INTERNAL :: int where
  "SPIFLASH_ERR_INTERNAL = - 24000 - 1"

definition SPIFLASH_ERR_BAD_STATE :: int where
  "SPIFLASH_ERR_BAD_STATE = - 24000 - 2"

definition SPIFLASH_ERR_HW_BUSY :: int where
  "SPIFLASH_ERR_HW_BUSY = - 24000 - 3"

definition SPIFLASH_ERR_BUSY :: int where
  "SPIFLASH_ERR_BUSY = - 24000 - 4"

definition SPIFLASH_ERR_ERASE_UNALIGNED :: int where
  "SPIFLASH_ERR_ERASE_UNALIGNED = - 24000 - 5"

definition SPIFLASH_ERR_BAD_CONFIG :: int where
  "SPIFLASH_ERR_BAD_CONFIG = - 24000 - 6"

lemmas err_defs = SPIFLASH_OK_def SPIFLASH_ERR_INTERNAL_def SPIFLASH_ERR_BAD_STATE_def
  SPIFLASH_ERR_HW_BUSY_def SPIFLASH_ERR_BUSY_def SPIFLASH_ERR_ERASE_UNALIGNED_def
  SPIFLASH_ERR_BAD_CONFIG_def

record spiflash_cmd_tbl_t =
  write_disable :: u8
  write_enable :: u8
  page_program :: u8
  read_data :: u8
  read_data_fast :: u8
  write_sr :: u8
  read_sr :: u8
  block_erase_4 :: u8
  block_erase_8 :: u8
  block_erase_16 :: u8
  block_erase_32 :: u8
  block_erase_64 :: u8
  chip_erase :: u8
  device_id :: u8
  jedec_id :: u8
  sr_busy_bit :: u8

definition SPIFLASH_CMD_TBL_STANDARD :: spiflash_cmd_tbl_t where
  "SPIFLASH_CMD_TBL_STANDARD = \<lparr>
     write_disable = 0x04, write_enable = 0x06, page_program = 0x02,
     read_data = 0x03, read_data_fast = 0x0b, write_sr = 0x01, read_sr = 0x05,
     block_erase_4 = 0x20, block_erase_8 = 0x00, block_erase_16 = 0x00,
     block_erase_32 = 0x52, block_erase_64 = 0xd8, chip_erase = 0xc7,
     device_id = 0x90, jedec_id = 0x9f, sr_busy_bit = 0x01 \<rparr>"

record spiflash_config_t =
  sz :: u32
  page_sz :: u32
  addr_sz :: u8
  addr_dummy_sz :: u8
  addr_endian :: u8
  sr_write_ms :: u32
  page_program_ms :: u32
  block_erase_4_ms :: u32
  block_erase_8_ms :: u32
  block_erase_16_ms :: u32
  block_erase_32_ms :: u32
  block_erase_64_ms :: u32
  chip_erase_ms :: u32

datatype spiflash_op_t =
    SPIFLASH_OP_IDLE
  | SPIFLASH_OP_ERASE_BLOCK_sWREN
  | SPIFLASH_OP_ERASE_BLOCK_sERAS
  | SPIFLASH_OP_ERASE_CHIP_sWREN
  | SPIFLASH_OP_ERASE_CHIP_sERAS
  | SPIFLASH_OP_WRITE_sWREN
  | SPIFLASH_OP_WRITE_sADDR
  | SPIFLASH_OP_WRITE_sDATA
  | SPIFLASH_OP_WRITE_SR_sWREN
  | SPIFLASH_OP_WRITE_SR_sDATA
  | SPIFLASH_OP_WRITE_REG_sWREN
  | SPIFLASH_OP_WRITE_REG_sDATAWAIT
  | SPIFLASH_OP_WRITE_REG_DATA
  | SPIFLASH_OP_READ
  | SPIFLASH_OP_FAST_READ
  | SPIFLASH_OP_READ_SR
  | SPIFLASH_OP_READ_SR_BUSY
  | SPIFLASH_OP_READ_JEDEC
  | SPIFLASH_OP_READ_PRODUCT
  | SPIFLASH_OP_READ_REG

text \<open>
  The three HAL entry points are host code. Every call the driver makes is appended to
  \<open>hal_log\<close> with its arguments: chip select with the asserted flag, a transfer with the
  bytes to send, \<open>tx_len\<close> and \<open>rx_len\<close>, a wait with its milliseconds.
\<close>

datatype hal_event =
    HAL_cs bool
  | HAL_txrx "u8 list" nat nat
  | HAL_wait u32

text \<open>
  A deterministic host transport: from the calls made so far and the arguments of the
  present \<open>_spiflash_spi_txrx\<close> call (bytes to send, \<open>tx_len\<close>, \<open>rx_len\<close>) it gives the
  \<open>int\<close> the call returns and the bytes it puts into \<open>rx_data\<close>. \<open>_spiflash_spi_cs\<close> and
  \<open>_spiflash_wait\<close> return nothing.
\<close>

type_synonym spiflash_hal_t = "hal_event list \<Rightarrow> u8 list \<Rightarrow> nat \<Rightarrow> nat \<Rightarrow> int \<times> u8 list"

text \<open>
  The driver struct. The anonymous unions are one field each: \<open>wr_len\<close> is also \<open>rd_len\<close>
  and \<open>erase_len\<close>; \<open>reg_nbr\<close> and \<open>sr_data\<close> are byte 0 of \<open>tx_internal_buf\<close>. The pointer
  union is split by what it points to: \<open>wr_buf\<close> is the caller's bytes from the pointer
  on (advancing the pointer drops bytes), \<open>rd_buf\<close> is the caller's destination memory
  from the pointer on (\<open>rd_buf\<close>, \<open>sr_dst\<close>, \<open>reg_dst\<close>, \<open>id_dst\<close>). \<open>async_cb\<close> tells whether a
  callback is set; \<open>cb_log\<close> records each call of it with its operation and error code.
  \<open>user_data\<close> is never read by the driver and is left out.
\<close>

record spiflash_t =
  cfg :: spiflash_config_t
  cmd_tbl :: spiflash_cmd_tbl_t
  async_cb :: bool
  async :: u8
  op :: spiflash_op_t
  wait_period_ms :: u32
  addr :: u32
  wr_len :: u32
  wr_buf :: "u8 list"
  rd_buf :: "u8 list"
  could_be_busy :: u8
  busy_pre_check :: u8
  busy_check_wait :: u8
  tx_internal_buf :: "u8 list"
  hal_log :: "hal_event list"
  cb_log :: "(spiflash_op_t \<times> int) list"

abbreviation (input) rd_len :: "spiflash_t \<Rightarrow> u32" where
  "rd_len \<equiv> wr_len"

abbreviation (input) erase_len :: "spiflash_t \<Rightarrow> u32" where
  "erase_len \<equiv> wr_len"

definition sr_data :: "spiflash_t \<Rightarrow> u8" where
  "sr_data s = tx_internal_buf s ! 0"

definition reg_nbr :: "spiflash_t \<Rightarrow> u8" where
  "reg_nbr s = tx_internal_buf s ! 0"

definition BCW_IDLE :: u8 where "BCW_IDLE = 0"
definition BCW_WAIT :: u8 where "BCW_WAIT = 1"
definition BCW_READ_SR :: u8 where "BCW_READ_SR = 2"
definition BCW_CHECK :: u8 where "BCW_CHECK = 3"

lemmas bcw_defs = BCW_IDLE_def BCW_WAIT_def BCW_READ_SR_def BCW_CHECK_def

section \<open>Helpers of spiflash.c\<close>

text \<open>\<open>DECR_WAIT(_ms)\<close>: \<open>(1 * (_ms) / 2) == 0 ? 1 : (1 * (_ms) / 2)\<close> on \<open>uint32_t\<close>.\<close>

definition DECR_WAIT :: "u32 \<Rightarrow> u32" where
  "DECR_WAIT ms = (if 1 * ms div 2 = 0 then 1 else 1 * ms div 2)"

definition MultiplyDeBruijnBitPosition :: "nat list" where
  "MultiplyDeBruijnBitPosition =
     [32, 1, 28, 2, 29, 14, 24, 3, 30, 22, 20, 15, 25, 17, 4, 8,
      31, 27, 13, 23, 21, 19, 16, 7, 26, 12, 18, 6, 11, 5, 10, 9]"

text \<open>
  \<open>_spiflash_clz\<close>: the table entry at \<open>((v & -v) * 0x077CB531U) >> 27\<close>, a \<open>uint8_t\<close>
  below 33.
\<close>

definition spiflash_clz :: "u32 \<Rightarrow> nat" where
  "spiflash_clz v =
     MultiplyDeBruijnBitPosition ! unat (drop_bit 27 ((v AND - v) * 0x077CB531))"

definition spiflash_is_hwbusy :: "spiflash_t \<Rightarrow> u8 \<Rightarrow> u8" where
  "spiflash_is_hwbusy s sr = sr AND sr_busy_bit (cmd_tbl s)"

text \<open>
  \<open>_spiflash_compose_address\<close>: byte \<open>i\<close> of the address field, and the loop storing
  \<open>addr_sz\<close> of them from offset \<open>off\<close> of the scratch buffer (the callers pass
  \<open>&tx_internal_buf[1]\<close>). A store past the 16 bytes of the buffer is outside the model:
  \<open>list_update\<close> leaves the list as it is there. So is an address field wider than the
  four bytes of \<open>addr\<close>: the C shift by 32 bits or more is undefined, \<open>drop_bit\<close> gives 0.
\<close>

definition compose_address_byte :: "spiflash_t \<Rightarrow> u32 \<Rightarrow> nat \<Rightarrow> u8" where
  "compose_address_byte s a i =
     ucast ((if addr_endian (cfg s) \<noteq> 0
             then drop_bit (8 * ((unat (addr_sz (cfg s)) - 1) - i)) a
             else drop_bit (8 * i) a) AND 0xff)"

definition spiflash_compose_address :: "spiflash_t \<Rightarrow> u32 \<Rightarrow> nat \<Rightarrow> u8 list \<Rightarrow> u8 list" where
  "spiflash_compose_address s a off buf =
     fold (\<lambda>i b. b[off + i := compose_address_byte s a i]) [0 ..< unat (addr_sz (cfg s))] buf"

definition spiflash_finalize :: "spiflash_t \<Rightarrow> spiflash_t" where
  "spiflash_finalize s =
     s\<lparr>wait_period_ms := 0, busy_pre_check := 0, busy_check_wait := BCW_IDLE\<rparr>"

definition spiflash_get_supported_block_mask :: "spiflash_t \<Rightarrow> u16" where
  "spiflash_get_supported_block_mask s =
     0 OR (if block_erase_4 (cmd_tbl s) \<noteq> 0 then push_bit 4 1 else 0)
       OR (if block_erase_8 (cmd_tbl s) \<noteq> 0 then push_bit 5 1 else 0)
       OR (if block_erase_16 (cmd_tbl s) \<noteq> 0 then push_bit 6 1 else 0)
       OR (if block_erase_32 (cmd_tbl s) \<noteq> 0 then push_bit 7 1 else 0)
       OR (if block_erase_64 (cmd_tbl s) \<noteq> 0 then push_bit 8 1 else 0)"

text \<open>
  The \<open>while (bm != 0)\<close> loop of \<open>_spiflash_get_largest_erase_area\<close>, on the loop
  variables \<open>bm\<close>, \<open>bm_lz\<close> and \<open>res\<close>. \<open>bm_lz\<close> is a \<open>uint8_t\<close> that stays below 50 (it
  starts at most at 40 and the mask has 9 bits), so it is a \<open>nat\<close>.
\<close>

function erase_area_loop :: "nat \<Rightarrow> u32 \<Rightarrow> u16 \<Rightarrow> nat \<Rightarrow> u32 \<Rightarrow> u32" where
  "erase_area_loop addr_lz l bm bm_lz res =
     (if bm = 0 then res
      else
        let res1 = (if addr_lz \<ge> bm_lz \<and> l \<ge> push_bit bm_lz 1 then push_bit bm_lz 1 else res);
            bm1 = drop_bit 1 bm;
            bm_lz1 = bm_lz + 1;
            new_bm_lz = (if spiflash_clz (ucast bm1) = 32 then 0 else spiflash_clz (ucast bm1))
        in erase_area_loop addr_lz l (drop_bit new_bm_lz bm1) (bm_lz1 + new_bm_lz) res1)"
  by pat_completeness auto
termination
proof -
  have shrinks: "unat (drop_bit (Suc k) bm) < unat bm" if nz: "bm \<noteq> 0" for k and bm :: u16
  proof -
    have "unat (drop_bit (Suc k) bm) = unat bm div 2 ^ Suc k"
      by (simp only: unat_drop_bit_eq) (simp only: drop_bit_eq_div)
    also have "\<dots> = unat bm div 2 div 2 ^ k"
      by (simp add: div_mult2_eq)
    also have "\<dots> \<le> unat bm div 2"
      by (rule div_le_dividend)
    also have "\<dots> < unat bm"
      using nz by (simp add: unat_gt_0)
    finally show ?thesis .
  qed
  show ?thesis
    by (relation "measure (\<lambda>(addr_lz, l, bm, bm_lz, res). unat bm)")
       (auto simp add: shrinks)
qed

declare erase_area_loop.simps [simp del]

text \<open>
  \<open>_spiflash_get_largest_erase_area\<close>. With no block erase opcode in the command table
  the mask is 0, \<open>_spiflash_clz\<close> gives 32 and the C shifts by 32 and by 40 bits are
  undefined; the word operations here give 0 for them. The theorems on accepted erase
  requests assume a supported block size.
\<close>

definition spiflash_get_largest_erase_area :: "spiflash_t \<Rightarrow> u32 \<Rightarrow> u32 \<Rightarrow> u32" where
  "spiflash_get_largest_erase_area s a l =
     (let bm = spiflash_get_supported_block_mask s;
          bm_lz = spiflash_clz (ucast bm);
          addr_lz = spiflash_clz a;
          bm1 = drop_bit bm_lz bm;
          bm_lz1 = bm_lz + 8
      in if l AND (push_bit bm_lz1 1 - 1) \<noteq> 0 then 0
         else erase_area_loop addr_lz l bm1 bm_lz1 0)"

definition spiflash_get_erase_cmd :: "spiflash_t \<Rightarrow> u32 \<Rightarrow> u8" where
  "spiflash_get_erase_cmd s l =
     (if l = 4 * 1024 \<and> block_erase_4 (cmd_tbl s) \<noteq> 0 then block_erase_4 (cmd_tbl s)
      else if l = 8 * 1024 \<and> block_erase_8 (cmd_tbl s) \<noteq> 0 then block_erase_8 (cmd_tbl s)
      else if l = 16 * 1024 \<and> block_erase_16 (cmd_tbl s) \<noteq> 0 then block_erase_16 (cmd_tbl s)
      else if l = 32 * 1024 \<and> block_erase_32 (cmd_tbl s) \<noteq> 0 then block_erase_32 (cmd_tbl s)
      else if l = 64 * 1024 \<and> block_erase_64 (cmd_tbl s) \<noteq> 0 then block_erase_64 (cmd_tbl s)
      else 0)"

definition spiflash_get_erase_time :: "spiflash_t \<Rightarrow> u32 \<Rightarrow> u32" where
  "spiflash_get_erase_time s l =
     (if l = 4 * 1024 then block_erase_4_ms (cfg s)
      else if l = 8 * 1024 then block_erase_8_ms (cfg s)
      else if l = 16 * 1024 then block_erase_16_ms (cfg s)
      else if l = 32 * 1024 then block_erase_32_ms (cfg s)
      else if l = 64 * 1024 then block_erase_64_ms (cfg s)
      else 0)"

section \<open>Calls into the HAL\<close>

definition hal_cs :: "bool \<Rightarrow> spiflash_t \<Rightarrow> spiflash_t" where
  "hal_cs b s = s\<lparr>hal_log := hal_log s @ [HAL_cs b]\<rparr>"

definition hal_wait :: "u32 \<Rightarrow> spiflash_t \<Rightarrow> spiflash_t" where
  "hal_wait ms s = s\<lparr>hal_log := hal_log s @ [HAL_wait ms]\<rparr>"

text \<open>
  A transfer: the host answers from the calls made before this one; the call is logged;
  at most \<open>rx_len\<close> of the received bytes are handed back for storing.
\<close>

definition hal_txrx ::
  "spiflash_hal_t \<Rightarrow> u8 list \<Rightarrow> nat \<Rightarrow> nat \<Rightarrow> spiflash_t \<Rightarrow> int \<times> u8 list \<times> spiflash_t" where
  "hal_txrx H tx tx_len rx_len s =
     (fst (H (hal_log s) tx tx_len rx_len),
      take rx_len (snd (H (hal_log s) tx tx_len rx_len)),
      s\<lparr>hal_log := hal_log s @ [HAL_txrx tx tx_len rx_len]\<rparr>)"

text \<open>Received bytes overwrite the start of the destination memory.\<close>

definition store_rx :: "u8 list \<Rightarrow> u8 list \<Rightarrow> u8 list" where
  "store_rx rx dst = rx @ drop (length rx) dst"

text \<open>A transfer that sends only (\<open>rx_data = 0\<close>, \<open>rx_len = 0\<close>).\<close>

definition tx_only :: "spiflash_hal_t \<Rightarrow> u8 list \<Rightarrow> nat \<Rightarrow> spiflash_t \<Rightarrow> int \<times> spiflash_t" where
  "tx_only H tx tx_len s =
     (case hal_txrx H tx tx_len 0 s of (res, rx, s1) \<Rightarrow> (res, s1))"

text \<open>A transfer that receives into the caller's destination memory.\<close>

definition txrx_to_dst ::
  "spiflash_hal_t \<Rightarrow> u8 list \<Rightarrow> nat \<Rightarrow> nat \<Rightarrow> spiflash_t \<Rightarrow> int \<times> spiflash_t" where
  "txrx_to_dst H tx tx_len rx_len s =
     (case hal_txrx H tx tx_len rx_len s of
        (res, rx, s1) \<Rightarrow> (res, s1\<lparr>rd_buf := store_rx rx (rd_buf s1)\<rparr>))"

text \<open>The status register read into \<open>&spi->sr_data\<close>, byte 0 of the scratch buffer.\<close>

definition txrx_read_sr :: "spiflash_hal_t \<Rightarrow> spiflash_t \<Rightarrow> int \<times> spiflash_t" where
  "txrx_read_sr H s =
     (case hal_txrx H [read_sr (cmd_tbl s)] 1 1 s of
        (res, rx, s1) \<Rightarrow> (res, s1\<lparr>tx_internal_buf := store_rx rx (tx_internal_buf s1)\<rparr>))"

text \<open>The length \<open>1 + addr_sz + addr_dummy_sz\<close> of a command frame with an address.\<close>

definition addr_frame_len :: "spiflash_t \<Rightarrow> nat" where
  "addr_frame_len s = 1 + unat (addr_sz (cfg s)) + unat (addr_dummy_sz (cfg s))"

section \<open>The state machine\<close>

text \<open>The write enable step shared by the five \<open>sWREN\<close> cases of \<open>_spiflash_begin_async\<close>.\<close>

definition begin_wren :: "spiflash_hal_t \<Rightarrow> spiflash_t \<Rightarrow> int \<times> spiflash_t" where
  "begin_wren H s = tx_only H [write_enable (cmd_tbl s)] 1 (hal_cs True s)"

definition begin_write_addr :: "spiflash_hal_t \<Rightarrow> spiflash_t \<Rightarrow> int \<times> spiflash_t" where
  "begin_write_addr H s =
     (let s1 = hal_cs True s;
          s2 = s1\<lparr>tx_internal_buf := (tx_internal_buf s1)[0 := page_program (cmd_tbl s1)]\<rparr>;
          s3 = s2\<lparr>tx_internal_buf := spiflash_compose_address s2 (addr s2) 1 (tx_internal_buf s2)\<rparr>
      in tx_only H (take (addr_frame_len s3) (tx_internal_buf s3)) (addr_frame_len s3) s3)"

definition begin_write_data :: "spiflash_hal_t \<Rightarrow> spiflash_t \<Rightarrow> int \<times> spiflash_t" where
  "begin_write_data H s =
     (let rem_pg_sz = page_sz (cfg s) - (addr s AND (page_sz (cfg s) - 1));
          wr_sz = (if wr_len s < rem_pg_sz then wr_len s else rem_pg_sz);
          buf = wr_buf s;
          s1 = s\<lparr>wr_buf := drop (unat wr_sz) (wr_buf s),
                 wr_len := wr_len s - wr_sz,
                 addr := addr s + wr_sz,
                 wait_period_ms := page_program_ms (cfg s),
                 busy_check_wait := BCW_WAIT\<rparr>
      in tx_only H (take (unat wr_sz) buf) (unat wr_sz) s1)"

definition begin_erase_block :: "spiflash_hal_t \<Rightarrow> spiflash_t \<Rightarrow> int \<times> spiflash_t" where
  "begin_erase_block H s =
     (let era_sz = spiflash_get_largest_erase_area s (addr s) (erase_len s);
          s1 = hal_cs True s;
          cmd = spiflash_get_erase_cmd s1 era_sz;
          era_time = spiflash_get_erase_time s1 era_sz
      in if cmd = 0x00 then (SPIFLASH_ERR_BAD_CONFIG, s1)
         else
           let s2 = s1\<lparr>tx_internal_buf := (tx_internal_buf s1)[0 := cmd]\<rparr>;
               s3 = s2\<lparr>tx_internal_buf :=
                         spiflash_compose_address s2 (addr s2) 1 (tx_internal_buf s2)\<rparr>;
               s4 = s3\<lparr>addr := addr s3 + era_sz,
                        wr_len := erase_len s3 - era_sz,
                        wait_period_ms := era_time,
                        busy_check_wait := BCW_WAIT\<rparr>
           in tx_only H (take (addr_frame_len s4) (tx_internal_buf s4)) (addr_frame_len s4) s4)"

definition begin_write_sr_data :: "spiflash_hal_t \<Rightarrow> spiflash_t \<Rightarrow> int \<times> spiflash_t" where
  "begin_write_sr_data H s =
     (let s1 = s\<lparr>tx_internal_buf := (tx_internal_buf s)[1 := sr_data s]\<rparr>;
          s2 = s1\<lparr>tx_internal_buf := (tx_internal_buf s1)[0 := write_sr (cmd_tbl s1)]\<rparr>;
          s3 = hal_cs True s2;
          s4 = s3\<lparr>wait_period_ms := sr_write_ms (cfg s3), busy_check_wait := BCW_WAIT\<rparr>
      in tx_only H (take 2 (tx_internal_buf s4)) 2 s4)"

definition begin_erase_chip :: "spiflash_hal_t \<Rightarrow> spiflash_t \<Rightarrow> int \<times> spiflash_t" where
  "begin_erase_chip H s =
     (let s1 = hal_cs True s;
          s2 = s1\<lparr>tx_internal_buf := (tx_internal_buf s1)[0 := chip_erase (cmd_tbl s1)],
                  wait_period_ms := chip_erase_ms (cfg s1),
                  busy_check_wait := BCW_WAIT\<rparr>
      in tx_only H (take 1 (tx_internal_buf s2)) 1 s2)"

definition begin_read :: "spiflash_hal_t \<Rightarrow> spiflash_t \<Rightarrow> int \<times> spiflash_t" where
  "begin_read H s =
     (let s1 = hal_cs True s;
          s2 = s1\<lparr>tx_internal_buf := (tx_internal_buf s1)[0 := read_data (cmd_tbl s1)]\<rparr>;
          s3 = s2\<lparr>tx_internal_buf := spiflash_compose_address s2 (addr s2) 1 (tx_internal_buf s2)\<rparr>
      in txrx_to_dst H (take (addr_frame_len s3) (tx_internal_buf s3)) (addr_frame_len s3)
           (unat (rd_len s3)) s3)"

definition begin_fast_read :: "spiflash_hal_t \<Rightarrow> spiflash_t \<Rightarrow> int \<times> spiflash_t" where
  "begin_fast_read H s =
     (let s1 = hal_cs True s;
          s2 = s1\<lparr>tx_internal_buf := (tx_internal_buf s1)[0 := read_data_fast (cmd_tbl s1)]\<rparr>;
          s3 = s2\<lparr>tx_internal_buf := spiflash_compose_address s2 (addr s2) 1 (tx_internal_buf s2)\<rparr>;
          s4 = s3\<lparr>tx_internal_buf := (tx_internal_buf s3)[1 + unat (addr_sz (cfg s3)) + 1 := 0]\<rparr>
      in txrx_to_dst H (take (1 + unat (addr_sz (cfg s4)) + 1 + unat (addr_dummy_sz (cfg s4)))
                          (tx_internal_buf s4))
           (1 + unat (addr_sz (cfg s4)) + 1 + unat (addr_dummy_sz (cfg s4)))
           (unat (rd_len s4)) s4)"

definition begin_write_reg_data :: "spiflash_hal_t \<Rightarrow> spiflash_t \<Rightarrow> int \<times> spiflash_t" where
  "begin_write_reg_data H s =
     (let s1 = hal_cs True s;
          s2 = s1\<lparr>busy_check_wait :=
                    (if op s1 = SPIFLASH_OP_WRITE_REG_DATA then BCW_IDLE else BCW_WAIT)\<rparr>
      in tx_only H (take 2 (tx_internal_buf s2)) 2 s2)"

definition spiflash_begin_async :: "spiflash_hal_t \<Rightarrow> spiflash_t \<Rightarrow> int \<times> spiflash_t" where
  "spiflash_begin_async H s =
     (if op s = SPIFLASH_OP_IDLE then (SPIFLASH_ERR_BAD_STATE, s)
      else if busy_pre_check s \<noteq> 0 then txrx_read_sr H (hal_cs True s)
      else
        case op s of
          SPIFLASH_OP_WRITE_sWREN \<Rightarrow> begin_wren H s
        | SPIFLASH_OP_WRITE_sADDR \<Rightarrow> begin_write_addr H s
        | SPIFLASH_OP_WRITE_sDATA \<Rightarrow> begin_write_data H s
        | SPIFLASH_OP_ERASE_BLOCK_sWREN \<Rightarrow> begin_wren H s
        | SPIFLASH_OP_ERASE_BLOCK_sERAS \<Rightarrow> begin_erase_block H s
        | SPIFLASH_OP_WRITE_SR_sWREN \<Rightarrow> begin_wren H s
        | SPIFLASH_OP_WRITE_SR_sDATA \<Rightarrow> begin_write_sr_data H s
        | SPIFLASH_OP_ERASE_CHIP_sWREN \<Rightarrow> begin_wren H s
        | SPIFLASH_OP_ERASE_CHIP_sERAS \<Rightarrow> begin_erase_chip H s
        | SPIFLASH_OP_READ \<Rightarrow> begin_read H s
        | SPIFLASH_OP_FAST_READ \<Rightarrow> begin_fast_read H s
        | SPIFLASH_OP_READ_JEDEC \<Rightarrow>
            txrx_to_dst H [jedec_id (cmd_tbl s)] 1 3 (hal_cs True s)
        | SPIFLASH_OP_READ_PRODUCT \<Rightarrow>
            txrx_to_dst H [device_id (cmd_tbl s)] 1 3 (hal_cs True s)
        | SPIFLASH_OP_READ_SR \<Rightarrow>
            txrx_to_dst H [read_sr (cmd_tbl s)] 1 1 (hal_cs True s)
        | SPIFLASH_OP_READ_SR_BUSY \<Rightarrow>
            txrx_to_dst H [read_sr (cmd_tbl s)] 1 1 (hal_cs True s)
        | SPIFLASH_OP_READ_REG \<Rightarrow>
            txrx_to_dst H [reg_nbr s] 1 1 (hal_cs True s)
        | SPIFLASH_OP_WRITE_REG_sWREN \<Rightarrow> begin_wren H s
        | SPIFLASH_OP_WRITE_REG_DATA \<Rightarrow> begin_write_reg_data H s
        | SPIFLASH_OP_WRITE_REG_sDATAWAIT \<Rightarrow> begin_write_reg_data H s
        | SPIFLASH_OP_IDLE \<Rightarrow> (SPIFLASH_ERR_INTERNAL, s))"

text \<open>
  The second \<open>switch (spi->op)\<close> of \<open>_spiflash_end_async\<close> ("handle results"): the next
  operation state, with the result code the switch leaves in \<open>res\<close>.
\<close>

definition end_handle_results :: "spiflash_t \<Rightarrow> int \<Rightarrow> int \<times> spiflash_t" where
  "end_handle_results s res =
     (case op s of
        SPIFLASH_OP_WRITE_sWREN \<Rightarrow> (res, (hal_cs False s)\<lparr>op := SPIFLASH_OP_WRITE_sADDR\<rparr>)
      | SPIFLASH_OP_WRITE_sADDR \<Rightarrow> (res, s\<lparr>op := SPIFLASH_OP_WRITE_sDATA\<rparr>)
      | SPIFLASH_OP_WRITE_sDATA \<Rightarrow>
          (if wr_len s = 0 then (res, s\<lparr>op := SPIFLASH_OP_IDLE\<rparr>)
           else (res, s\<lparr>op := SPIFLASH_OP_WRITE_sWREN\<rparr>))
      | SPIFLASH_OP_ERASE_BLOCK_sWREN \<Rightarrow>
          (res, (hal_cs False s)\<lparr>op := SPIFLASH_OP_ERASE_BLOCK_sERAS\<rparr>)
      | SPIFLASH_OP_ERASE_BLOCK_sERAS \<Rightarrow>
          (if erase_len s = 0 then (res, s\<lparr>op := SPIFLASH_OP_IDLE\<rparr>)
           else (res, s\<lparr>op := SPIFLASH_OP_ERASE_BLOCK_sWREN\<rparr>))
      | SPIFLASH_OP_WRITE_SR_sWREN \<Rightarrow>
          (res, (hal_cs False s)\<lparr>op := SPIFLASH_OP_WRITE_SR_sDATA\<rparr>)
      | SPIFLASH_OP_WRITE_SR_sDATA \<Rightarrow> (res, s\<lparr>op := SPIFLASH_OP_IDLE\<rparr>)
      | SPIFLASH_OP_ERASE_CHIP_sWREN \<Rightarrow>
          (res, (hal_cs False s)\<lparr>op := SPIFLASH_OP_ERASE_CHIP_sERAS\<rparr>)
      | SPIFLASH_OP_ERASE_CHIP_sERAS \<Rightarrow> (res, s\<lparr>op := SPIFLASH_OP_IDLE\<rparr>)
      | SPIFLASH_OP_READ \<Rightarrow> (res, s\<lparr>op := SPIFLASH_OP_IDLE\<rparr>)
      | SPIFLASH_OP_FAST_READ \<Rightarrow> (res, s\<lparr>op := SPIFLASH_OP_IDLE\<rparr>)
      | SPIFLASH_OP_READ_JEDEC \<Rightarrow> (res, s\<lparr>op := SPIFLASH_OP_IDLE\<rparr>)
      | SPIFLASH_OP_READ_PRODUCT \<Rightarrow> (res, s\<lparr>op := SPIFLASH_OP_IDLE\<rparr>)
      | SPIFLASH_OP_READ_SR_BUSY \<Rightarrow>
          (res, s\<lparr>rd_buf := (rd_buf s)[0 :=
                     (if (rd_buf s ! 0) AND sr_busy_bit (cmd_tbl s) \<noteq> 0 then 1 else 0)],
                  op := SPIFLASH_OP_IDLE\<rparr>)
      | SPIFLASH_OP_READ_SR \<Rightarrow> (res, s\<lparr>op := SPIFLASH_OP_IDLE\<rparr>)
      | SPIFLASH_OP_WRITE_REG_sWREN \<Rightarrow>
          (res, (hal_cs False s)\<lparr>op := SPIFLASH_OP_WRITE_REG_sDATAWAIT\<rparr>)
      | SPIFLASH_OP_WRITE_REG_sDATAWAIT \<Rightarrow> (res, s\<lparr>op := SPIFLASH_OP_IDLE\<rparr>)
      | SPIFLASH_OP_WRITE_REG_DATA \<Rightarrow> (res, s\<lparr>op := SPIFLASH_OP_IDLE\<rparr>)
      | SPIFLASH_OP_READ_REG \<Rightarrow> (res, s\<lparr>op := SPIFLASH_OP_IDLE\<rparr>)
      | SPIFLASH_OP_IDLE \<Rightarrow> (SPIFLASH_ERR_INTERNAL, s))"

text \<open>The end of \<open>_spiflash_end_async\<close>: the next step, or chip select off and finalize.\<close>

definition end_continue :: "spiflash_hal_t \<Rightarrow> spiflash_t \<Rightarrow> int \<Rightarrow> int \<times> spiflash_t" where
  "end_continue H s res =
     (case end_handle_results s res of
        (res1, s1) \<Rightarrow>
          if res1 = SPIFLASH_OK \<and> op s1 \<noteq> SPIFLASH_OP_IDLE then spiflash_begin_async H s1
          else (res1, spiflash_finalize (hal_cs False s1)))"

definition spiflash_end_async :: "spiflash_hal_t \<Rightarrow> spiflash_t \<Rightarrow> int \<Rightarrow> int \<times> spiflash_t" where
  "spiflash_end_async H s res =
     (if res \<noteq> SPIFLASH_OK then (res, spiflash_finalize s)
      else if busy_pre_check s \<noteq> 0 then
        (if spiflash_is_hwbusy s (sr_data s) \<noteq> 0
         then (SPIFLASH_ERR_HW_BUSY, hal_cs False s)
         else spiflash_begin_async H (s\<lparr>busy_pre_check := 0\<rparr>))
      else if busy_check_wait s = BCW_WAIT then
        (let s1 = hal_cs False s;
             s2 = s1\<lparr>busy_check_wait :=
                       (if wait_period_ms s1 = 0 then BCW_IDLE else BCW_READ_SR)\<rparr>
         in (SPIFLASH_OK, hal_wait (wait_period_ms s2) s2))
      else if busy_check_wait s = BCW_READ_SR then
        txrx_read_sr H (hal_cs True (s\<lparr>busy_check_wait := BCW_CHECK\<rparr>))
      else if busy_check_wait s = BCW_CHECK then
        (let s1 = hal_cs False s
         in if spiflash_is_hwbusy s1 (sr_data s1) \<noteq> 0 then
              (let s2 = s1\<lparr>wait_period_ms := DECR_WAIT (wait_period_ms s1),
                           busy_check_wait := BCW_READ_SR\<rparr>
               in (SPIFLASH_OK, hal_wait (wait_period_ms s2) s2))
            else end_continue H (s1\<lparr>busy_check_wait := BCW_IDLE\<rparr>) res)
      else end_continue H s res)"

text \<open>
  \<open>SPIFLASH_async_trigger\<close>. The callback is host code; here it only records its
  arguments.
\<close>

definition SPIFLASH_async_trigger :: "spiflash_hal_t \<Rightarrow> spiflash_t \<Rightarrow> int \<Rightarrow> int \<times> spiflash_t" where
  "SPIFLASH_async_trigger H s err_code =
     (case spiflash_end_async H s err_code of
        (res, s1) \<Rightarrow>
          if res \<noteq> SPIFLASH_OK \<or> op s1 = SPIFLASH_OP_IDLE then
            (let s2 = (if res \<noteq> SPIFLASH_OK then s1\<lparr>op := SPIFLASH_OP_IDLE\<rparr> else s1);
                 s3 = (if async s2 \<noteq> 0 \<and> async_cb s2
                       then s2\<lparr>cb_log := cb_log s2 @ [(op s1, res)]\<rparr> else s2)
             in (res, s3))
          else (res, s1))"

text \<open>
  The blocking loop of \<open>_spiflash_exe\<close>,
  \<open>while (res == SPIFLASH_OK && spi->op != SPIFLASH_OP_IDLE) res = SPIFLASH_async_trigger(spi, res)\<close>.
  It need not end (a chip that stays busy is polled for ever), so it runs on fuel, one
  unit for each turn; \<open>None\<close> means the fuel ran out before the loop ended.
\<close>

fun spiflash_exe_loop ::
  "nat \<Rightarrow> spiflash_hal_t \<Rightarrow> int \<times> spiflash_t \<Rightarrow> (int \<times> spiflash_t) option" where
  "spiflash_exe_loop fuel H (res, s) =
     (if res = SPIFLASH_OK \<and> op s \<noteq> SPIFLASH_OP_IDLE then
        (case fuel of
           0 \<Rightarrow> None
         | Suc n \<Rightarrow> spiflash_exe_loop n H (SPIFLASH_async_trigger H s res))
      else Some (res, s))"

declare spiflash_exe_loop.simps [simp del]

definition spiflash_exe ::
  "nat \<Rightarrow> spiflash_hal_t \<Rightarrow> spiflash_t \<Rightarrow> (int \<times> spiflash_t) option" where
  "spiflash_exe fuel H s =
     (let s1 = (if could_be_busy s \<noteq> 0 then s\<lparr>busy_pre_check := 1\<rparr> else s)
      in if async s1 \<noteq> 0 then Some (spiflash_begin_async H s1)
         else
           case spiflash_exe_loop fuel H (spiflash_begin_async H s1) of
             None \<Rightarrow> None
           | Some (res, s2) \<Rightarrow> Some (res, spiflash_finalize s2))"

section \<open>The public functions\<close>

text \<open>
  \<open>SPIFLASH_init\<close>: the struct is zeroed (null buffers, a zero scratch buffer of 16
  bytes) and the references, the mode and the callback are stored. No HAL call has been
  made and no callback has run.
\<close>

definition SPIFLASH_init ::
  "spiflash_config_t \<Rightarrow> spiflash_cmd_tbl_t \<Rightarrow> bool \<Rightarrow> u8 \<Rightarrow> spiflash_t" where
  "SPIFLASH_init c cmd cb a =
     \<lparr> cfg = c, cmd_tbl = cmd, async_cb = cb, async = a, op = SPIFLASH_OP_IDLE,
       wait_period_ms = 0, addr = 0, wr_len = 0, wr_buf = [], rd_buf = [],
       could_be_busy = 0, busy_pre_check = 0, busy_check_wait = 0,
       tx_internal_buf = replicate 16 0, hal_log = [], cb_log = [] \<rparr>"

definition SPIFLASH_write ::
  "nat \<Rightarrow> spiflash_hal_t \<Rightarrow> spiflash_t \<Rightarrow> u32 \<Rightarrow> u32 \<Rightarrow> u8 list \<Rightarrow> (int \<times> spiflash_t) option" where
  "SPIFLASH_write fuel H s a l buf =
     (if op s \<noteq> SPIFLASH_OP_IDLE then Some (SPIFLASH_ERR_BUSY, s)
      else spiflash_exe fuel H
             (s\<lparr>addr := a, wr_buf := buf, wr_len := l, op := SPIFLASH_OP_WRITE_sWREN\<rparr>))"

definition SPIFLASH_read ::
  "nat \<Rightarrow> spiflash_hal_t \<Rightarrow> spiflash_t \<Rightarrow> u32 \<Rightarrow> u32 \<Rightarrow> u8 list \<Rightarrow> (int \<times> spiflash_t) option" where
  "SPIFLASH_read fuel H s a l buf =
     (if op s \<noteq> SPIFLASH_OP_IDLE then Some (SPIFLASH_ERR_BUSY, s)
      else spiflash_exe fuel H
             (s\<lparr>addr := a, rd_buf := buf, wr_len := l, op := SPIFLASH_OP_READ\<rparr>))"

definition SPIFLASH_fast_read ::
  "nat \<Rightarrow> spiflash_hal_t \<Rightarrow> spiflash_t \<Rightarrow> u32 \<Rightarrow> u32 \<Rightarrow> u8 list \<Rightarrow> (int \<times> spiflash_t) option" where
  "SPIFLASH_fast_read fuel H s a l buf =
     (if op s \<noteq> SPIFLASH_OP_IDLE then Some (SPIFLASH_ERR_BUSY, s)
      else spiflash_exe fuel H
             (s\<lparr>addr := a, rd_buf := buf, wr_len := l,
                op := (if read_data_fast (cmd_tbl s) \<noteq> 0
                       then SPIFLASH_OP_FAST_READ else SPIFLASH_OP_READ)\<rparr>))"

definition SPIFLASH_read_jedec_id ::
  "nat \<Rightarrow> spiflash_hal_t \<Rightarrow> spiflash_t \<Rightarrow> u8 list \<Rightarrow> (int \<times> spiflash_t) option" where
  "SPIFLASH_read_jedec_id fuel H s dst =
     (if op s \<noteq> SPIFLASH_OP_IDLE then Some (SPIFLASH_ERR_BUSY, s)
      else spiflash_exe fuel H (s\<lparr>rd_buf := dst, op := SPIFLASH_OP_READ_JEDEC\<rparr>))"

definition SPIFLASH_read_product_id ::
  "nat \<Rightarrow> spiflash_hal_t \<Rightarrow> spiflash_t \<Rightarrow> u8 list \<Rightarrow> (int \<times> spiflash_t) option" where
  "SPIFLASH_read_product_id fuel H s dst =
     (if op s \<noteq> SPIFLASH_OP_IDLE then Some (SPIFLASH_ERR_BUSY, s)
      else spiflash_exe fuel H (s\<lparr>rd_buf := dst, op := SPIFLASH_OP_READ_PRODUCT\<rparr>))"

definition SPIFLASH_read_sr ::
  "nat \<Rightarrow> spiflash_hal_t \<Rightarrow> spiflash_t \<Rightarrow> u8 list \<Rightarrow> (int \<times> spiflash_t) option" where
  "SPIFLASH_read_sr fuel H s dst =
     (if op s \<noteq> SPIFLASH_OP_IDLE then Some (SPIFLASH_ERR_BUSY, s)
      else spiflash_exe fuel H (s\<lparr>rd_buf := dst, op := SPIFLASH_OP_READ_SR\<rparr>))"

definition SPIFLASH_read_sr_busy ::
  "nat \<Rightarrow> spiflash_hal_t \<Rightarrow> spiflash_t \<Rightarrow> u8 list \<Rightarrow> (int \<times> spiflash_t) option" where
  "SPIFLASH_read_sr_busy fuel H s dst =
     (if op s \<noteq> SPIFLASH_OP_IDLE then Some (SPIFLASH_ERR_BUSY, s)
      else spiflash_exe fuel H (s\<lparr>rd_buf := dst, op := SPIFLASH_OP_READ_SR_BUSY\<rparr>))"

definition SPIFLASH_write_sr ::
  "nat \<Rightarrow> spiflash_hal_t \<Rightarrow> spiflash_t \<Rightarrow> u8 \<Rightarrow> (int \<times> spiflash_t) option" where
  "SPIFLASH_write_sr fuel H s sr =
     (if op s \<noteq> SPIFLASH_OP_IDLE then Some (SPIFLASH_ERR_BUSY, s)
      else spiflash_exe fuel H
             (s\<lparr>tx_internal_buf := (tx_internal_buf s)[0 := sr],
                op := SPIFLASH_OP_WRITE_SR_sWREN\<rparr>))"

definition SPIFLASH_read_reg ::
  "nat \<Rightarrow> spiflash_hal_t \<Rightarrow> spiflash_t \<Rightarrow> u8 \<Rightarrow> u8 list \<Rightarrow> (int \<times> spiflash_t) option" where
  "SPIFLASH_read_reg fuel H s reg dst =
     (if op s \<noteq> SPIFLASH_OP_IDLE then Some (SPIFLASH_ERR_BUSY, s)
      else spiflash_exe fuel H
             (s\<lparr>tx_internal_buf := (tx_internal_buf s)[0 := reg], rd_buf := dst,
                op := SPIFLASH_OP_READ_REG\<rparr>))"

definition SPIFLASH_write_reg ::
  "nat \<Rightarrow> spiflash_hal_t \<Rightarrow> spiflash_t \<Rightarrow> u8 \<Rightarrow> u8 \<Rightarrow> u8 \<Rightarrow> u32 \<Rightarrow> (int \<times> spiflash_t) option" where
  "SPIFLASH_write_reg fuel H s reg dat write_en wait_ms =
     (if op s \<noteq> SPIFLASH_OP_IDLE then Some (SPIFLASH_ERR_BUSY, s)
      else
        let s1 = s\<lparr>tx_internal_buf := ((tx_internal_buf s)[0 := reg])[1 := dat]\<rparr>;
            s2 = s1\<lparr>op := (if write_en \<noteq> 0 then SPIFLASH_OP_WRITE_REG_sWREN
                            else SPIFLASH_OP_WRITE_REG_DATA)\<rparr>;
            s3 = (if write_en \<noteq> 0 then s2\<lparr>wait_period_ms := wait_ms\<rparr> else s2)
        in spiflash_exe fuel H s3)"

definition SPIFLASH_erase ::
  "nat \<Rightarrow> spiflash_hal_t \<Rightarrow> spiflash_t \<Rightarrow> u32 \<Rightarrow> u32 \<Rightarrow> (int \<times> spiflash_t) option" where
  "SPIFLASH_erase fuel H s a l =
     (if op s \<noteq> SPIFLASH_OP_IDLE then Some (SPIFLASH_ERR_BUSY, s)
      else if spiflash_get_largest_erase_area s a l = 0
      then Some (SPIFLASH_ERR_ERASE_UNALIGNED, s)
      else spiflash_exe fuel H
             (s\<lparr>addr := a, wr_len := l, op := SPIFLASH_OP_ERASE_BLOCK_sWREN\<rparr>))"

definition SPIFLASH_chip_erase ::
  "nat \<Rightarrow> spiflash_hal_t \<Rightarrow> spiflash_t \<Rightarrow> (int \<times> spiflash_t) option" where
  "SPIFLASH_chip_erase fuel H s =
     (if op s \<noteq> SPIFLASH_OP_IDLE then Some (SPIFLASH_ERR_BUSY, s)
      else spiflash_exe fuel H (s\<lparr>op := SPIFLASH_OP_ERASE_CHIP_sWREN\<rparr>))"

definition SPIFLASH_is_busy :: "spiflash_t \<Rightarrow> int" where
  "SPIFLASH_is_busy s = (if op s = SPIFLASH_OP_IDLE then SPIFLASH_OK else SPIFLASH_ERR_BUSY)"

section \<open>Reference notions and fixtures\<close>

text \<open>The address field of a frame: \<open>addr_sz\<close> bytes in the configured byte order.\<close>

definition address_bytes :: "spiflash_t \<Rightarrow> u32 \<Rightarrow> u8 list" where
  "address_bytes s a = map (compose_address_byte s a) [0 ..< unat (addr_sz (cfg s))]"

text \<open>
  The erase block sizes a command table supports, in bytes, smallest first: those of
  \<open>block_erase_4\<close> to \<open>block_erase_64\<close> whose opcode is not zero.
\<close>

definition supported_erase_sizes :: "spiflash_cmd_tbl_t \<Rightarrow> nat list" where
  "supported_erase_sizes c =
     map fst (filter (\<lambda>(n, opc). opc \<noteq> 0)
       [(4 * 1024, block_erase_4 c), (8 * 1024, block_erase_8 c), (16 * 1024, block_erase_16 c),
        (32 * 1024, block_erase_32 c), (64 * 1024, block_erase_64 c)])"

definition smallest_erase_size :: "spiflash_cmd_tbl_t \<Rightarrow> nat" where
  "smallest_erase_size c = Min (set (supported_erase_sizes c))"

text \<open>
  A usual chip: 1 MiB, pages of 256 bytes, three address bytes sent most significant
  byte first, no dummy bytes.
\<close>

definition cfg_typical :: spiflash_config_t where
  "cfg_typical = \<lparr> sz = 0x100000, page_sz = 256, addr_sz = 3, addr_dummy_sz = 0,
     addr_endian = 1, sr_write_ms = 10, page_program_ms = 3, block_erase_4_ms = 50,
     block_erase_8_ms = 0, block_erase_16_ms = 0, block_erase_32_ms = 120,
     block_erase_64_ms = 150, chip_erase_ms = 2000 \<rparr>"

text \<open>A blocking driver on the usual chip with the standard commands, after \<open>SPIFLASH_init\<close>.\<close>

definition spi_typical :: spiflash_t where
  "spi_typical = SPIFLASH_init cfg_typical SPIFLASH_CMD_TBL_STANDARD False 0"

text \<open>A transport that always succeeds and receives zero bytes: the chip is never busy.\<close>

definition hal_ready :: spiflash_hal_t where
  "hal_ready h tx n m = (0, replicate m 0)"

text \<open>A transport whose every transfer fails with \<open>-1\<close>.\<close>

definition hal_fail :: spiflash_hal_t where
  "hal_fail h tx n m = (- 1, [])"

section \<open>Reference notions for the engine\<close>

text \<open>
  A transfer that only sends: \<open>rx_len\<close> is 0. Write enable, command and address frames and
  page program payloads are such transfers; a status register read is not.
\<close>

fun sends_only :: "hal_event \<Rightarrow> bool" where
  "sends_only (HAL_txrx tx n m) = (m = 0)"
| "sends_only (HAL_cs b) = False"
| "sends_only (HAL_wait ms) = False"

text \<open>
  The sizes of the parts of \<open>[a, a + l)\<close> cut at each multiple of the page size \<open>P\<close>: first
  up to the next page boundary, then whole pages, then the rest.
\<close>

function page_chunks :: "nat \<Rightarrow> nat \<Rightarrow> nat \<Rightarrow> nat list" where
  "page_chunks P a l =
     (if l = 0 \<or> P = 0 then []
      else min l (P - a mod P) # page_chunks P (a + min l (P - a mod P)) (l - min l (P - a mod P)))"
  by pat_completeness auto

termination
  by (relation "measure (\<lambda>(P, a, l). l)") (auto simp add: min_def)

declare page_chunks.simps [simp del]

text \<open>
  The page program frame for cursor \<open>a\<close>: the opcode, the address bytes, and
  \<open>addr_dummy_sz\<close> filler bytes, which are what the scratch buffer holds behind the address.
\<close>

definition pp_frame :: "spiflash_t \<Rightarrow> u32 \<Rightarrow> u8 list" where
  "pp_frame s a =
     page_program (cmd_tbl s) # address_bytes s a @
       take (unat (addr_dummy_sz (cfg s))) (drop (1 + unat (addr_sz (cfg s))) (tx_internal_buf s))"

text \<open>
  The send-only transfers of a write, chunk by chunk from cursor \<open>a\<close>: a write enable
  frame, the page program frame at the cursor, then that chunk of the caller's bytes.
\<close>

fun write_frames :: "spiflash_t \<Rightarrow> u32 \<Rightarrow> u8 list \<Rightarrow> nat list \<Rightarrow> hal_event list" where
  "write_frames s a buf [] = []"
| "write_frames s a buf (c # cs) =
     [HAL_txrx [write_enable (cmd_tbl s)] 1 0,
      HAL_txrx (pp_frame s a) (addr_frame_len s) 0,
      HAL_txrx (take c buf) c 0] @ write_frames s (a + of_nat c) (drop c buf) cs"

text \<open>
  The first \<open>k\<close> turns of the blocking loop of \<open>_spiflash_exe\<close> (fewer if it ends earlier).
\<close>

fun exe_turns :: "nat \<Rightarrow> spiflash_hal_t \<Rightarrow> int \<times> spiflash_t \<Rightarrow> int \<times> spiflash_t" where
  "exe_turns 0 H (res, s) = (res, s)"
| "exe_turns (Suc k) H (res, s) =
     (if res = SPIFLASH_OK \<and> op s \<noteq> SPIFLASH_OP_IDLE
      then exe_turns k H (SPIFLASH_async_trigger H s res) else (res, s))"

text \<open>
  The status register read of the busy-wait sub-machine, as a logged HAL call.
\<close>

definition sr_poll :: "spiflash_cmd_tbl_t \<Rightarrow> hal_event" where
  "sr_poll c = HAL_txrx [read_sr c] 1 1"

text \<open>
  What the transport reports for a status register read made after the calls \<open>h\<close>: the
  byte read, if the transfer succeeds and delivers one.
\<close>

definition sr_report :: "spiflash_hal_t \<Rightarrow> spiflash_cmd_tbl_t \<Rightarrow> hal_event list \<Rightarrow> u8 option" where
  "sr_report H c h =
     (case H h [read_sr c] 1 1 of
        (res, rx) \<Rightarrow> if res = 0 \<and> rx \<noteq> [] then Some (hd rx) else None)"

text \<open>
  The chip is busy for \<open>n\<close> status reads and then ready: a read made when \<open>p\<close> up to
  \<open>p + n - 1\<close> reads are in the log has the busy bit set, the read after \<open>p + n\<close> reads
  has it clear.
\<close>

definition chip_busy_for :: "spiflash_hal_t \<Rightarrow> spiflash_cmd_tbl_t \<Rightarrow> nat \<Rightarrow> nat \<Rightarrow> bool" where
  "chip_busy_for H c p n \<longleftrightarrow>
     (\<forall>h. (p \<le> count_list h (sr_poll c) \<and> count_list h (sr_poll c) < p + n \<longrightarrow>
             (\<exists>v. sr_report H c h = Some v \<and> v AND sr_busy_bit c \<noteq> 0)) \<and>
          (count_list h (sr_poll c) = p + n \<longrightarrow>
             (\<exists>v. sr_report H c h = Some v \<and> v AND sr_busy_bit c = 0)))"

text \<open>
  The wait durations of the busy wait: \<open>t\<close>, then each the half of the one before,
  rounded down, and 1 where that would be 0; \<open>n + 1\<close> of them.
\<close>

fun backoff :: "nat \<Rightarrow> nat \<Rightarrow> nat list" where
  "backoff t 0 = [t]"
| "backoff t (Suc n) = t # backoff (max 1 (t div 2)) n"

text \<open>
  The HAL calls of the busy wait from its first status read on, with \<open>n\<close> busy reads.
\<close>

fun poll_events :: "spiflash_cmd_tbl_t \<Rightarrow> u32 \<Rightarrow> nat \<Rightarrow> hal_event list" where
  "poll_events c t 0 = [HAL_cs True, sr_poll c]"
| "poll_events c t (Suc n) =
     [HAL_cs True, sr_poll c, HAL_cs False, HAL_wait (DECR_WAIT t)] @ poll_events c (DECR_WAIT t) n"

text \<open>
  The HAL calls of a whole busy wait that starts with period \<open>t\<close> and sees \<open>n\<close> busy reads.
\<close>

definition backoff_events :: "spiflash_cmd_tbl_t \<Rightarrow> u32 \<Rightarrow> nat \<Rightarrow> hal_event list" where
  "backoff_events c t n = [HAL_cs False, HAL_wait t] @ poll_events c t n"

text \<open>
  The durations passed to \<open>_spiflash_wait\<close>, in call order.
\<close>

fun wait_durations :: "hal_event list \<Rightarrow> u32 list" where
  "wait_durations [] = []"
| "wait_durations (HAL_wait ms # es) = ms # wait_durations es"
| "wait_durations (e # es) = wait_durations es"

text \<open>
  A transport on which the chip is busy for the first two status reads, then ready.
\<close>

definition hal_busy_twice :: spiflash_hal_t where
  "hal_busy_twice h tx n m =
     (0, if count_list h (sr_poll SPIFLASH_CMD_TBL_STANDARD) < 2 then replicate m 1
         else replicate m 0)"

text \<open>
  The usual driver just after a page program payload went out: the busy wait is armed
  with a period of 3 ms.
\<close>

definition spi_programming :: spiflash_t where
  "spi_programming = spi_typical\<lparr>op := SPIFLASH_OP_WRITE_sDATA, wait_period_ms := 3,
     busy_check_wait := BCW_WAIT\<rparr>"

text \<open>
  The \<open>wr_sz\<close> that the \<open>WRITE_sDATA\<close> step computes from the state.
\<close>

definition wr_sz_of :: "spiflash_t \<Rightarrow> u32" where
  "wr_sz_of s =
     (if wr_len s < page_sz (cfg s) - (addr s AND (page_sz (cfg s) - 1)) then wr_len s
      else page_sz (cfg s) - (addr s AND (page_sz (cfg s) - 1)))"

text \<open>
  The scratch buffer behind the opcode and address bytes.
\<close>

definition scratch_tail :: "spiflash_t \<Rightarrow> u8 list" where
  "scratch_tail s = drop (1 + unat (addr_sz (cfg s))) (tx_internal_buf s)"

text \<open>
  What stays fixed while an operation that started in \<open>s0\<close> runs: configuration,
  command table, the scratch bytes behind the address, and room for an address frame.
\<close>

definition same_chip :: "spiflash_t \<Rightarrow> spiflash_t \<Rightarrow> bool" where
  "same_chip s0 s \<longleftrightarrow>
     cfg s = cfg s0 \<and> cmd_tbl s = cmd_tbl s0 \<and> scratch_tail s = scratch_tail s0 \<and>
     addr_frame_len s0 \<le> length (tx_internal_buf s)"

text \<open>
  The states a write passes through.
\<close>

definition write_inv :: "spiflash_t \<Rightarrow> spiflash_t \<Rightarrow> bool" where
  "write_inv s0 s \<longleftrightarrow>
     same_chip s0 s \<and>
     (op s = SPIFLASH_OP_IDLE \<or> op s = SPIFLASH_OP_WRITE_sWREN \<or>
      op s = SPIFLASH_OP_WRITE_sADDR \<or> op s = SPIFLASH_OP_WRITE_sDATA) \<and>
     (busy_pre_check s \<noteq> 0 \<longrightarrow> op s = SPIFLASH_OP_WRITE_sWREN) \<and>
     (op s = SPIFLASH_OP_WRITE_sWREN \<or> op s = SPIFLASH_OP_WRITE_sADDR \<longrightarrow> wr_len s \<noteq> 0)"

text \<open>
  The send-only transfers a write in state \<open>s\<close> has still to make.
\<close>

definition write_pending :: "nat \<Rightarrow> spiflash_t \<Rightarrow> spiflash_t \<Rightarrow> hal_event list" where
  "write_pending k s0 s =
     (let fs = write_frames s0 (addr s) (wr_buf s)
                 (page_chunks (2 ^ k) (unat (addr s)) (unat (wr_len s)))
      in if op s = SPIFLASH_OP_WRITE_sWREN then (if busy_pre_check s \<noteq> 0 then fs else drop 1 fs)
         else if op s = SPIFLASH_OP_WRITE_sADDR then drop 2 fs
         else if op s = SPIFLASH_OP_WRITE_sDATA then fs
         else [])"

text \<open>
  The \<open>tx_len\<close> of each send-only transfer, in call order.
\<close>

fun sent_lengths :: "hal_event list \<Rightarrow> nat list" where
  "sent_lengths [] = []"
| "sent_lengths (HAL_txrx tx n m # es) = (if m = 0 then n # sent_lengths es else sent_lengths es)"
| "sent_lengths (e # es) = sent_lengths es"

section \<open>Requests, modes and the asynchronous host\<close>

text \<open>
  The driver state \<open>s\<close> with the mode flag, the callback and the record of callback
  calls replaced: the same operation state seen in another mode.
\<close>

definition in_mode ::
  "u8 \<Rightarrow> bool \<Rightarrow> (spiflash_op_t \<times> int) list \<Rightarrow> spiflash_t \<Rightarrow> spiflash_t" where
  "in_mode x y c s = s\<lparr>async := x, async_cb := y, cb_log := c\<rparr>"

text \<open>
  The twelve requests of the public interface, with their arguments.
\<close>

datatype request =
    Req_write u32 u32 "u8 list"
  | Req_read u32 u32 "u8 list"
  | Req_fast_read u32 u32 "u8 list"
  | Req_erase u32 u32
  | Req_chip_erase
  | Req_write_sr u8
  | Req_read_sr "u8 list"
  | Req_read_sr_busy "u8 list"
  | Req_read_jedec_id "u8 list"
  | Req_read_product_id "u8 list"
  | Req_read_reg u8 "u8 list"
  | Req_write_reg u8 u8 u8 u32

text \<open>
  A request, passed to its entry point.
\<close>

fun SPIFLASH_request ::
  "nat \<Rightarrow> spiflash_hal_t \<Rightarrow> spiflash_t \<Rightarrow> request \<Rightarrow> (int \<times> spiflash_t) option" where
  "SPIFLASH_request fuel H s (Req_write a l buf) = SPIFLASH_write fuel H s a l buf"
| "SPIFLASH_request fuel H s (Req_read a l buf) = SPIFLASH_read fuel H s a l buf"
| "SPIFLASH_request fuel H s (Req_fast_read a l buf) = SPIFLASH_fast_read fuel H s a l buf"
| "SPIFLASH_request fuel H s (Req_erase a l) = SPIFLASH_erase fuel H s a l"
| "SPIFLASH_request fuel H s Req_chip_erase = SPIFLASH_chip_erase fuel H s"
| "SPIFLASH_request fuel H s (Req_write_sr sr) = SPIFLASH_write_sr fuel H s sr"
| "SPIFLASH_request fuel H s (Req_read_sr dst) = SPIFLASH_read_sr fuel H s dst"
| "SPIFLASH_request fuel H s (Req_read_sr_busy dst) = SPIFLASH_read_sr_busy fuel H s dst"
| "SPIFLASH_request fuel H s (Req_read_jedec_id dst) = SPIFLASH_read_jedec_id fuel H s dst"
| "SPIFLASH_request fuel H s (Req_read_product_id dst) = SPIFLASH_read_product_id fuel H s dst"
| "SPIFLASH_request fuel H s (Req_read_reg reg dst) = SPIFLASH_read_reg fuel H s reg dst"
| "SPIFLASH_request fuel H s (Req_write_reg reg dat write_en wait_ms) =
     SPIFLASH_write_reg fuel H s reg dat write_en wait_ms"

text \<open>
  The host of an asynchronous driver with immediate completions: as long as the last
  call returned \<open>SPIFLASH_OK\<close> and the operation is in flight, the one HAL call that is
  outstanding completes and the host calls \<open>SPIFLASH_async_trigger(spi, 0)\<close>. Fuel as in
  the blocking loop.
\<close>

fun async_completions ::
  "nat \<Rightarrow> spiflash_hal_t \<Rightarrow> int \<times> spiflash_t \<Rightarrow> (int \<times> spiflash_t) option" where
  "async_completions fuel H (res, s) =
     (if res = SPIFLASH_OK \<and> op s \<noteq> SPIFLASH_OP_IDLE then
        (case fuel of
           0 \<Rightarrow> None
         | Suc n \<Rightarrow> async_completions n H (SPIFLASH_async_trigger H s 0))
      else Some (res, s))"

declare async_completions.simps [simp del]

text \<open>
  A request on the driver in synchronous mode.
\<close>

definition sync_run ::
  "nat \<Rightarrow> spiflash_hal_t \<Rightarrow> spiflash_t \<Rightarrow> request \<Rightarrow> (int \<times> spiflash_t) option" where
  "sync_run fuel H s req = SPIFLASH_request fuel H (s\<lparr>async := 0\<rparr>) req"

text \<open>
  A request on the driver in asynchronous mode, then the completions.
\<close>

definition async_run ::
  "nat \<Rightarrow> spiflash_hal_t \<Rightarrow> spiflash_t \<Rightarrow> request \<Rightarrow> (int \<times> spiflash_t) option" where
  "async_run fuel H s req =
     (case SPIFLASH_request fuel H (s\<lparr>async := 1\<rparr>) req of
        None \<Rightarrow> None
      | Some r \<Rightarrow> async_completions fuel H r)"

text \<open>
  What the host sees of a finished run: the result code and the HAL calls.
\<close>

definition observed :: "(int \<times> spiflash_t) option \<Rightarrow> (int \<times> hal_event list) option" where
  "observed = map_option (\<lambda>(res, s). (res, hal_log s))"

text \<open>
  The asynchronous run of a call that gave \<open>X\<close> agrees with the blocking call that gave
  \<open>Y\<close>: same termination, result code and HAL calls, and the callback has run once
  with the result code if it is set and the call started the operation, else not at all.
\<close>

definition agree ::
  "nat \<Rightarrow> spiflash_hal_t \<Rightarrow> bool \<Rightarrow> (spiflash_op_t \<times> int) list \<Rightarrow>
   (int \<times> spiflash_t) option \<Rightarrow> (int \<times> spiflash_t) option \<Rightarrow> bool" where
  "agree fuel H y c X Y \<longleftrightarrow>
     map_option (\<lambda>(r', a). (r', hal_log a, map snd (cb_log a)))
       (case X of None \<Rightarrow> None | Some x \<Rightarrow> async_completions fuel H x)
     = map_option (\<lambda>(r', s'). (r', hal_log s',
           map snd c @ (if y \<and> map_option fst X = Some SPIFLASH_OK then [r'] else [])))
       Y"

text \<open>
  The usual driver with a completion callback set.
\<close>

definition spi_with_cb :: spiflash_t where
  "spi_with_cb = spi_typical\<lparr>async_cb := True\<rparr>"

text \<open>
  A transport that fails from the sixth HAL call on: in a write, the page program
  payload is the first transfer to fail.
\<close>

definition hal_fail_payload :: spiflash_hal_t where
  "hal_fail_payload h tx n m = (if length h < 5 then (0, replicate m 0) else (- 1, []))"

text \<open>
  A scratch buffer of 16 bytes that is zero from index \<open>n + 1\<close> on.
\<close>

definition zero_after :: "nat \<Rightarrow> u8 list \<Rightarrow> bool" where
  "zero_after n b \<longleftrightarrow> length b = 16 \<and> drop (Suc n) b = replicate (15 - n) 0"

text \<open>
  The driver of configuration \<open>c\<close>, with an address field of 1 to 15 bytes, whose
  scratch buffer is zero behind the address field.
\<close>

definition scratch_zero :: "spiflash_config_t \<Rightarrow> spiflash_t \<Rightarrow> bool" where
  "scratch_zero c s \<longleftrightarrow>
     cfg s = c \<and> 1 \<le> unat (addr_sz c) \<and> unat (addr_sz c) \<le> 15 \<and>
     zero_after (unat (addr_sz c)) (tx_internal_buf s)"

text \<open>
  The planner loop unrolled over the five block sizes, smallest first: the last size
  that is supported, at most \<open>2 ^ z\<close>-aligned and at most \<open>l\<close> wins.
\<close>

definition erase_area_ref :: "spiflash_cmd_tbl_t \<Rightarrow> nat \<Rightarrow> u32 \<Rightarrow> u32" where
  "erase_area_ref c z l =
     foldl (\<lambda>res (k, opc). if opc \<noteq> 0 \<and> k \<le> z \<and> push_bit k 1 \<le> l then push_bit k 1 else res) 0
       [(12, block_erase_4 c), (13, block_erase_8 c), (14, block_erase_16 c),
        (15, block_erase_32 c), (16, block_erase_64 c)]"

text \<open>
  The supported erase sizes that divide the address \<open>a\<close> and are at most \<open>l\<close>, smallest
  first, and the largest of them (0 when there is none).
\<close>

definition fitting_erase_sizes :: "spiflash_cmd_tbl_t \<Rightarrow> nat \<Rightarrow> nat \<Rightarrow> nat list" where
  "fitting_erase_sizes c a l = filter (\<lambda>S. S dvd a \<and> S \<le> l) (supported_erase_sizes c)"

definition largest_fitting :: "spiflash_cmd_tbl_t \<Rightarrow> nat \<Rightarrow> nat \<Rightarrow> nat" where
  "largest_fitting c a l =
     (if fitting_erase_sizes c a l = [] then 0 else last (fitting_erase_sizes c a l))"

text \<open>
  The frames of the transfers that send \<open>k\<close> bytes, in call order.
\<close>

fun frames_of_length :: "nat \<Rightarrow> hal_event list \<Rightarrow> u8 list list" where
  "frames_of_length k [] = []"
| "frames_of_length k (HAL_txrx tx n m # es) =
     (if n = k then tx # frames_of_length k es else frames_of_length k es)"
| "frames_of_length k (e # es) = frames_of_length k es"

text \<open>
  The status register reads in the log \<open>h\<close> since the last transfer that only sent
  (all of them when there is none).
\<close>

definition polls_since_send :: "spiflash_cmd_tbl_t \<Rightarrow> hal_event list \<Rightarrow> nat" where
  "polls_since_send c h = count_list (takeWhile (\<lambda>e. \<not> sends_only e) (rev h)) (sr_poll c)"

text \<open>
  A transport that cooperates with a request started in state \<open>s\<close>: every transfer
  succeeds; every status register read delivers a byte, and once \<open>N\<close> reads have been
  made since the last send-only transfer that byte has the busy bit clear (the chip is
  busy for at most \<open>N\<close> reads); and when the request starts with the busy pre-check
  (\<open>could_be_busy\<close> set, or \<open>busy_pre_check\<close> left set), the chip reports ready at that
  read.
\<close>

definition cooperating :: "spiflash_hal_t \<Rightarrow> spiflash_t \<Rightarrow> nat \<Rightarrow> bool" where
  "cooperating H s N \<longleftrightarrow>
     (\<forall>h tx n m. fst (H h tx n m) = 0) \<and>
     (\<forall>h. \<exists>v. sr_report H (cmd_tbl s) h = Some v \<and>
            (N \<le> polls_since_send (cmd_tbl s) h \<longrightarrow> v AND sr_busy_bit (cmd_tbl s) = 0)) \<and>
     (could_be_busy s \<noteq> 0 \<or> busy_pre_check s \<noteq> 0 \<longrightarrow>
        (\<exists>v. sr_report H (cmd_tbl s) (hal_log s @ [HAL_cs True]) = Some v \<and>
             v AND sr_busy_bit (cmd_tbl s) = 0))"

text \<open>
  A bound on the turns of the loop that the busy-wait sub-machine takes, on a
  cooperating transport, up to and with the turn that handles the result of the step.
\<close>

definition wait_budget :: "nat \<Rightarrow> spiflash_t \<Rightarrow> nat" where
  "wait_budget N s =
     (if busy_check_wait s = BCW_WAIT then 2 * N + 4
      else if busy_check_wait s = BCW_READ_SR
        then 2 * (N - polls_since_send (cmd_tbl s) (hal_log s)) + 3
      else if busy_check_wait s = BCW_CHECK \<and> sr_data s AND sr_busy_bit (cmd_tbl s) \<noteq> 0
        then 2 * (N - polls_since_send (cmd_tbl s) (hal_log s)) + 4
      else 1)"

text \<open>
  The steps of a write that follow the current one: write enable, address and payload
  for each part still to be sent.
\<close>

definition write_phases :: "nat \<Rightarrow> spiflash_t \<Rightarrow> nat" where
  "write_phases k s =
     (if op s = SPIFLASH_OP_WRITE_sWREN
        then 3 * length (page_chunks (2 ^ k) (unat (addr s + wr_sz_of s))
                           (unat (wr_len s - wr_sz_of s))) + 2
      else if op s = SPIFLASH_OP_WRITE_sADDR
        then 3 * length (page_chunks (2 ^ k) (unat (addr s + wr_sz_of s))
                           (unat (wr_len s - wr_sz_of s))) + 1
      else 3 * length (page_chunks (2 ^ k) (unat (addr s)) (unat (wr_len s))))"

text \<open>
  A bound on the turns of the loop that a write in state \<open>s\<close> still takes on a cooperating
  transport.
\<close>

definition write_budget :: "nat \<Rightarrow> nat \<Rightarrow> spiflash_t \<Rightarrow> nat" where
  "write_budget N k s =
     (if op s = SPIFLASH_OP_IDLE then 0
      else (2 * N + 4) * write_phases k s + wait_budget N s +
           (if busy_pre_check s \<noteq> 0 then 2 * N + 5 else 0))"

text \<open>A transport on which the chip never gets ready: every status read has the busy bit set.\<close>

definition hal_busy :: spiflash_hal_t where
  "hal_busy h tx n m = (0, replicate m 1)"

section \<open>Address frames\<close>

lemma fold_update_upt:
  "off + n \<le> length buf \<Longrightarrow>
   fold (\<lambda>i b. b[off + i := f i]) [0 ..< n] buf
     = take off buf @ map f [0 ..< n] @ drop (off + n) buf"
proof (induction n)
  case 0
  then show ?case by simp
next
  case (Suc n)
  then have le: "off + n < length buf" by simp
  have "fold (\<lambda>i b. b[off + i := f i]) [0 ..< Suc n] buf
        = (take off buf @ map f [0 ..< n] @ drop (off + n) buf)[off + n := f n]"
    using Suc by simp
  also have "\<dots> = take off buf @ map f [0 ..< n] @ (drop (off + n) buf)[0 := f n]"
    using le by (simp add: list_update_append)
  also have "(drop (off + n) buf)[0 := f n] = f n # drop (off + Suc n) buf"
    using le by (metis Cons_nth_drop_Suc add_Suc_right list_update_code(2))
  finally show ?case by simp
qed

lemma compose_address_eq:
  "off + unat (addr_sz (cfg s)) \<le> length buf \<Longrightarrow>
   spiflash_compose_address s a off buf
     = take off buf @ address_bytes s a @ drop (off + unat (addr_sz (cfg s))) buf"
  by (simp add: spiflash_compose_address_def address_bytes_def fold_update_upt)

text \<open>
  C4, as the code has it. With \<open>addr = 0x01020304\<close> and \<open>addr_sz = 3\<close> the address bytes
  stored in the frame are the three low bytes of the address: \<open>02 03 04\<close> when
  \<open>addr_endian\<close> is not zero (big endian, most significant of the three first) and
  \<open>04 03 02\<close> when it is zero (little endian). The high byte \<open>01\<close> is never sent.
\<close>

theorem compose_address_endianness:
  assumes "addr_sz (cfg s) = 3" and "off + 3 \<le> length buf"
  shows "take 3 (drop off (spiflash_compose_address s 0x01020304 off buf))
         = (if addr_endian (cfg s) \<noteq> 0 then [0x02, 0x03, 0x04] else [0x04, 0x03, 0x02])"
proof -
  have ab: "address_bytes s 0x01020304
            = (if addr_endian (cfg s) \<noteq> 0 then [0x02, 0x03, 0x04] else [0x04, 0x03, 0x02])"
    using assms(1) by (simp add: address_bytes_def compose_address_byte_def upt_rec)
  show ?thesis
    using assms by (simp add: compose_address_eq ab)
qed

text \<open>The same on the usual chip, for both byte orders, at the offset the driver uses.\<close>

theorem compose_address_endianness_witness:
  "addr_sz (cfg spi_typical) = 3 \<and> 1 + 3 \<le> length (tx_internal_buf spi_typical) \<and>
   take 3 (drop 1 (spiflash_compose_address spi_typical 0x01020304 1
      (tx_internal_buf spi_typical))) = [0x02, 0x03, 0x04] \<and>
   take 3 (drop 1 (spiflash_compose_address
      (spi_typical\<lparr>cfg := cfg_typical\<lparr>addr_endian := 0\<rparr>\<rparr>) 0x01020304 1
      (tx_internal_buf spi_typical))) = [0x04, 0x03, 0x02]"
  using compose_address_endianness [of spi_typical 1 "tx_internal_buf spi_typical"]
    compose_address_endianness [of "spi_typical\<lparr>cfg := cfg_typical\<lparr>addr_endian := 0\<rparr>\<rparr>" 1
      "tx_internal_buf spi_typical"]
  by (simp add: spi_typical_def SPIFLASH_init_def cfg_typical_def)

text \<open>
  C4 as stated fails for the big endian frame: the bytes are \<open>02 03 04\<close>, not \<open>01 02 03\<close>.
\<close>

theorem compose_address_big_endian_counterexample:
  "addr_endian (cfg spi_typical) = 1 \<and> addr_sz (cfg spi_typical) = 3 \<and>
   take 3 (drop 1 (spiflash_compose_address spi_typical 0x01020304 1
      (tx_internal_buf spi_typical))) = [0x02, 0x03, 0x04] \<and>
   take 3 (drop 1 (spiflash_compose_address spi_typical 0x01020304 1
      (tx_internal_buf spi_typical))) \<noteq> [0x01, 0x02, 0x03]"
  by code_simp

section \<open>Requests rejected at entry\<close>

lemma clz_block_mask:
  "spiflash_clz (ucast (spiflash_get_supported_block_mask s)) =
     (if block_erase_4 (cmd_tbl s) \<noteq> 0 then 4
      else if block_erase_8 (cmd_tbl s) \<noteq> 0 then 5
      else if block_erase_16 (cmd_tbl s) \<noteq> 0 then 6
      else if block_erase_32 (cmd_tbl s) \<noteq> 0 then 7
      else if block_erase_64 (cmd_tbl s) \<noteq> 0 then 8 else 32)"
  by (cases "block_erase_4 (cmd_tbl s) = 0"; cases "block_erase_8 (cmd_tbl s) = 0";
      cases "block_erase_16 (cmd_tbl s) = 0"; cases "block_erase_32 (cmd_tbl s) = 0";
      cases "block_erase_64 (cmd_tbl s) = 0";
      simp add: spiflash_get_supported_block_mask_def spiflash_clz_def
        MultiplyDeBruijnBitPosition_def)

lemma smallest_erase_size_eq:
  "supported_erase_sizes (cmd_tbl s) \<noteq> [] \<Longrightarrow>
   smallest_erase_size (cmd_tbl s) =
     2 ^ (spiflash_clz (ucast (spiflash_get_supported_block_mask s)) + 8)"
  by (cases "block_erase_4 (cmd_tbl s) = 0"; cases "block_erase_8 (cmd_tbl s) = 0";
      cases "block_erase_16 (cmd_tbl s) = 0"; cases "block_erase_32 (cmd_tbl s) = 0";
      cases "block_erase_64 (cmd_tbl s) = 0";
      simp add: clz_block_mask smallest_erase_size_def supported_erase_sizes_def)

lemma and_low_bits: "(l :: u32) AND (2 ^ k - 1) = 0 \<longleftrightarrow> 2 ^ k dvd unat l"
  by (simp add: and_mask_dvd_nat mask_eq_decr_exp)

text \<open>
  C7. An erase request on an idle driver whose length is not a multiple of the smallest
  supported erase block returns \<open>SPIFLASH_ERR_ERASE_UNALIGNED\<close> and leaves the whole driver
  state as it was: the operation stays idle and no HAL call is logged.
\<close>

theorem erase_unaligned_len_rejected:
  assumes "op s = SPIFLASH_OP_IDLE"
    and "supported_erase_sizes (cmd_tbl s) \<noteq> []"
    and "\<not> smallest_erase_size (cmd_tbl s) dvd unat l"
  shows "SPIFLASH_erase fuel H s a l = Some (SPIFLASH_ERR_ERASE_UNALIGNED, s)"
proof -
  have "l AND (push_bit (spiflash_clz (ucast (spiflash_get_supported_block_mask s)) + 8) 1 - 1)
          \<noteq> 0"
    using assms(2,3) by (simp add: and_low_bits smallest_erase_size_eq)
  then have "spiflash_get_largest_erase_area s a l = 0"
    by (simp add: spiflash_get_largest_erase_area_def Let_def)
  then show ?thesis
    using assms(1) by (simp add: SPIFLASH_erase_def)
qed

text \<open>Six KiB on a chip whose smallest erase block is 4 KiB.\<close>

theorem erase_unaligned_len_rejected_witness:
  "op spi_typical = SPIFLASH_OP_IDLE \<and>
   supported_erase_sizes (cmd_tbl spi_typical) = [4096, 32768, 65536] \<and>
   smallest_erase_size (cmd_tbl spi_typical) = 4096 \<and>
   \<not> smallest_erase_size (cmd_tbl spi_typical) dvd unat (0x1800 :: u32) \<and>
   SPIFLASH_erase 0 hal_ready spi_typical 0 0x1800
     = Some (SPIFLASH_ERR_ERASE_UNALIGNED, spi_typical) \<and>
   hal_log spi_typical = []"
  using erase_unaligned_len_rejected [of spi_typical "0x1800" 0 hal_ready 0]
  by (simp add: spi_typical_def SPIFLASH_init_def SPIFLASH_CMD_TBL_STANDARD_def
      supported_erase_sizes_def smallest_erase_size_def)

lemma erase_area_loop_len0: "erase_area_loop lz 0 bm k 0 = 0"
proof (induction lz "0 :: u32" bm k "0 :: u32" rule: erase_area_loop.induct)
  case (1 addr_lz bm bm_lz)
  show ?case
  proof (cases "bm = 0")
    case True
    then show ?thesis by (simp add: erase_area_loop.simps)
  next
    case False
    have r0: "(if addr_lz \<ge> bm_lz \<and> (0::u32) \<ge> push_bit bm_lz 1 then push_bit bm_lz 1 else 0)
              = (0::u32)"
      by auto
    show ?thesis
      using False 1 r0
      by (subst erase_area_loop.simps) (simp add: Let_def)
  qed
qed

text \<open>
  C10. On an idle driver \<open>erase(addr, 0)\<close> returns \<open>SPIFLASH_ERR_ERASE_UNALIGNED\<close> for
  every address, with the driver state (and so the log of HAL calls) unchanged: the
  planner returns 0, since no erase size is at most 0, and the entry point maps that to
  the error.
\<close>

theorem erase_zero_len_rejected:
  "op s = SPIFLASH_OP_IDLE \<Longrightarrow>
   spiflash_get_largest_erase_area s a 0 = 0 \<and>
   SPIFLASH_erase fuel H s a 0 = Some (SPIFLASH_ERR_ERASE_UNALIGNED, s)"
  by (simp add: SPIFLASH_erase_def spiflash_get_largest_erase_area_def Let_def
      erase_area_loop_len0)

theorem erase_zero_len_rejected_witness:
  "op spi_typical = SPIFLASH_OP_IDLE \<and>
   spiflash_get_largest_erase_area spi_typical 0x10000 0 = 0 \<and>
   SPIFLASH_erase 0 hal_ready spi_typical 0x10000 0
     = Some (SPIFLASH_ERR_ERASE_UNALIGNED, spi_typical)"
  using erase_zero_len_rejected [of spi_typical "0x10000" 0 hal_ready]
  by (simp add: spi_typical_def SPIFLASH_init_def)

text \<open>
  C9. Each of the twelve request entry points, called while an operation is in flight
  (\<open>op\<close> not idle), returns \<open>SPIFLASH_ERR_BUSY\<close> and hands back the driver state as it
  was, the log of HAL calls included.
\<close>

theorem busy_driver_rejects_request:
  assumes "op s \<noteq> SPIFLASH_OP_IDLE"
  shows "SPIFLASH_write fuel H s a l buf = Some (SPIFLASH_ERR_BUSY, s) \<and>
     SPIFLASH_read fuel H s a l buf = Some (SPIFLASH_ERR_BUSY, s) \<and>
     SPIFLASH_fast_read fuel H s a l buf = Some (SPIFLASH_ERR_BUSY, s) \<and>
     SPIFLASH_erase fuel H s a l = Some (SPIFLASH_ERR_BUSY, s) \<and>
     SPIFLASH_chip_erase fuel H s = Some (SPIFLASH_ERR_BUSY, s) \<and>
     SPIFLASH_write_sr fuel H s sr = Some (SPIFLASH_ERR_BUSY, s) \<and>
     SPIFLASH_read_sr fuel H s buf = Some (SPIFLASH_ERR_BUSY, s) \<and>
     SPIFLASH_read_sr_busy fuel H s buf = Some (SPIFLASH_ERR_BUSY, s) \<and>
     SPIFLASH_read_jedec_id fuel H s buf = Some (SPIFLASH_ERR_BUSY, s) \<and>
     SPIFLASH_read_product_id fuel H s buf = Some (SPIFLASH_ERR_BUSY, s) \<and>
     SPIFLASH_read_reg fuel H s reg buf = Some (SPIFLASH_ERR_BUSY, s) \<and>
     SPIFLASH_write_reg fuel H s reg dat write_en wait_ms = Some (SPIFLASH_ERR_BUSY, s)"
  using assms
  by (simp add: SPIFLASH_write_def SPIFLASH_read_def SPIFLASH_fast_read_def SPIFLASH_erase_def
      SPIFLASH_chip_erase_def SPIFLASH_write_sr_def SPIFLASH_read_sr_def SPIFLASH_read_sr_busy_def
      SPIFLASH_read_jedec_id_def SPIFLASH_read_product_id_def SPIFLASH_read_reg_def
      SPIFLASH_write_reg_def)

text \<open>A driver in the middle of a page program rejects all twelve.\<close>

theorem busy_driver_rejects_request_witness:
  "op (spi_typical\<lparr>op := SPIFLASH_OP_WRITE_sDATA\<rparr>) \<noteq> SPIFLASH_OP_IDLE \<and>
   (let s = spi_typical\<lparr>op := SPIFLASH_OP_WRITE_sDATA\<rparr>; r = Some (SPIFLASH_ERR_BUSY, s) in
     SPIFLASH_write 5 hal_ready s 0 1 [7] = r \<and>
     SPIFLASH_read 5 hal_ready s 0 1 [7] = r \<and>
     SPIFLASH_fast_read 5 hal_ready s 0 1 [7] = r \<and>
     SPIFLASH_erase 5 hal_ready s 0 1 = r \<and>
     SPIFLASH_chip_erase 5 hal_ready s = r \<and>
     SPIFLASH_write_sr 5 hal_ready s 2 = r \<and>
     SPIFLASH_read_sr 5 hal_ready s [7] = r \<and>
     SPIFLASH_read_sr_busy 5 hal_ready s [7] = r \<and>
     SPIFLASH_read_jedec_id 5 hal_ready s [7] = r \<and>
     SPIFLASH_read_product_id 5 hal_ready s [7] = r \<and>
     SPIFLASH_read_reg 5 hal_ready s 3 [7] = r \<and>
     SPIFLASH_write_reg 5 hal_ready s 3 4 1 9 = r)"
  using busy_driver_rejects_request [of "spi_typical\<lparr>op := SPIFLASH_OP_WRITE_sDATA\<rparr>"
      5 hal_ready 0 1 "[7]" 2 3 4 1 9]
  by (simp add: Let_def)

lemmas hal_defs = hal_cs_def hal_wait_def hal_txrx_def tx_only_def txrx_to_dst_def
  txrx_read_sr_def

section \<open>The busy-wait sub-machine\<close>

text \<open>One turn of the engine in each state of the busy-wait sub-machine.\<close>

lemma trigger_bcw_wait:
  assumes "busy_pre_check s = 0" "busy_check_wait s = BCW_WAIT" "op s \<noteq> SPIFLASH_OP_IDLE"
  shows "SPIFLASH_async_trigger H s 0 =
     (0, s\<lparr>busy_check_wait := (if wait_period_ms s = 0 then BCW_IDLE else BCW_READ_SR),
           hal_log := hal_log s @ [HAL_cs False, HAL_wait (wait_period_ms s)]\<rparr>)"
  using assms
  by (simp add: SPIFLASH_async_trigger_def spiflash_end_async_def SPIFLASH_OK_def hal_defs Let_def)

lemma trigger_bcw_read_sr:
  assumes "busy_pre_check s = 0" "busy_check_wait s = BCW_READ_SR" "op s \<noteq> SPIFLASH_OP_IDLE"
    and "H (hal_log s @ [HAL_cs True]) [read_sr (cmd_tbl s)] 1 1 = (0, rx)"
  shows "SPIFLASH_async_trigger H s 0 =
     (0, s\<lparr>busy_check_wait := BCW_CHECK,
           tx_internal_buf := store_rx (take 1 rx) (tx_internal_buf s),
           hal_log := hal_log s @ [HAL_cs True, HAL_txrx [read_sr (cmd_tbl s)] 1 1]\<rparr>)"
  using assms
  by (simp add: SPIFLASH_async_trigger_def spiflash_end_async_def SPIFLASH_OK_def hal_defs Let_def bcw_defs)

lemma trigger_bcw_check_busy:
  assumes "busy_pre_check s = 0" "busy_check_wait s = BCW_CHECK" "op s \<noteq> SPIFLASH_OP_IDLE"
    and "sr_data s AND sr_busy_bit (cmd_tbl s) \<noteq> 0"
  shows "SPIFLASH_async_trigger H s 0 =
     (0, s\<lparr>wait_period_ms := DECR_WAIT (wait_period_ms s), busy_check_wait := BCW_READ_SR,
           hal_log := hal_log s @ [HAL_cs False, HAL_wait (DECR_WAIT (wait_period_ms s))]\<rparr>)"
  using assms
  by (simp add: SPIFLASH_async_trigger_def spiflash_end_async_def SPIFLASH_OK_def hal_defs Let_def bcw_defs
      spiflash_is_hwbusy_def sr_data_def)

lemma end_async_bcw_check_ready:
  assumes "busy_pre_check s = 0" "busy_check_wait s = BCW_CHECK"
    and "sr_data s AND sr_busy_bit (cmd_tbl s) = 0"
  shows "spiflash_end_async H s 0 =
     end_continue H (s\<lparr>hal_log := hal_log s @ [HAL_cs False], busy_check_wait := BCW_IDLE\<rparr>) 0"
  using assms
  by (simp add: spiflash_end_async_def SPIFLASH_OK_def hal_defs Let_def bcw_defs
      spiflash_is_hwbusy_def sr_data_def)

lemma chip_busy_for_next: "chip_busy_for H c p (Suc n) \<Longrightarrow> chip_busy_for H c (Suc p) n"
  by (simp add: chip_busy_for_def)

lemma sr_reportD:
  "sr_report H c h = Some v \<Longrightarrow> \<exists>rx. H h [read_sr c] 1 1 = (0, rx) \<and> take 1 rx = [v]"
  by (cases "H h [read_sr c] 1 1"; cases "snd (H h [read_sr c] 1 1)")
     (auto simp: sr_report_def split: if_splits)

lemma count_sr_poll_cs [simp]: "count_list (h @ [HAL_cs b]) (sr_poll c) = count_list h (sr_poll c)"
  by (simp add: sr_poll_def)

lemma poll_step:
  assumes "busy_pre_check s = 0" "busy_check_wait s = BCW_READ_SR" "op s \<noteq> SPIFLASH_OP_IDLE"
    and "sr_report H (cmd_tbl s) (hal_log s @ [HAL_cs True]) = Some v"
  shows "SPIFLASH_async_trigger H s 0 =
     (0, s\<lparr>busy_check_wait := BCW_CHECK,
           tx_internal_buf := v # drop 1 (tx_internal_buf s),
           hal_log := hal_log s @ [HAL_cs True, sr_poll (cmd_tbl s)]\<rparr>)"
proof -
  from sr_reportD [OF assms(4)] obtain rx
    where rx: "H (hal_log s @ [HAL_cs True]) [read_sr (cmd_tbl s)] 1 1 = (0, rx)" "take 1 rx = [v]"
    by blast
  from rx(2) have len: "min (length rx) (Suc 0) = Suc 0"
    by (cases rx) auto
  show ?thesis
    using trigger_bcw_read_sr [of s H rx] assms(1-3) rx len
    by (simp add: store_rx_def sr_poll_def)
qed

lemma poll_loop:
  assumes "busy_pre_check s = 0" "busy_check_wait s = BCW_READ_SR" "op s \<noteq> SPIFLASH_OP_IDLE"
    and "chip_busy_for H (cmd_tbl s) (count_list (hal_log s) (sr_poll (cmd_tbl s))) n"
  shows "fst (exe_turns (2 * n + 1) H (0, s)) = 0 \<and>
     hal_log (snd (exe_turns (2 * n + 1) H (0, s)))
       = hal_log s @ poll_events (cmd_tbl s) (wait_period_ms s) n \<and>
     busy_check_wait (snd (exe_turns (2 * n + 1) H (0, s))) = BCW_CHECK \<and>
     busy_pre_check (snd (exe_turns (2 * n + 1) H (0, s))) = 0 \<and>
     op (snd (exe_turns (2 * n + 1) H (0, s))) = op s \<and>
     cmd_tbl (snd (exe_turns (2 * n + 1) H (0, s))) = cmd_tbl s \<and>
     sr_data (snd (exe_turns (2 * n + 1) H (0, s))) AND sr_busy_bit (cmd_tbl s) = 0"
  using assms
proof (induction n arbitrary: s)
  case 0
  let ?c = "cmd_tbl s"
  from "0.prems"(4) obtain v
    where v: "sr_report H ?c (hal_log s @ [HAL_cs True]) = Some v" "v AND sr_busy_bit ?c = 0"
    unfolding chip_busy_for_def
    by (metis add.right_neutral count_sr_poll_cs)
  show ?case
    using "0.prems"(1-3) v(2) poll_step [OF "0.prems"(1-3) v(1)]
    by (simp add: SPIFLASH_OK_def sr_data_def)
next
  case (Suc n)
  let ?c = "cmd_tbl s"
  let ?p = "count_list (hal_log s) (sr_poll ?c)"
  from Suc.prems(4) obtain v
    where v: "sr_report H ?c (hal_log s @ [HAL_cs True]) = Some v" "v AND sr_busy_bit ?c \<noteq> 0"
    unfolding chip_busy_for_def
    by (metis count_sr_poll_cs le_refl less_add_Suc1 add.commute add_Suc_right less_add_same_cancel1 zero_less_Suc)
  define s1 where "s1 = s\<lparr>busy_check_wait := BCW_CHECK,
           tx_internal_buf := v # drop 1 (tx_internal_buf s),
           hal_log := hal_log s @ [HAL_cs True, sr_poll ?c]\<rparr>"
  define s2 where "s2 = s1\<lparr>wait_period_ms := DECR_WAIT (wait_period_ms s1),
           busy_check_wait := BCW_READ_SR,
           hal_log := hal_log s1 @ [HAL_cs False, HAL_wait (DECR_WAIT (wait_period_ms s1))]\<rparr>"
  have t1: "SPIFLASH_async_trigger H s 0 = (0, s1)"
    using poll_step [OF Suc.prems(1-3) v(1)] by (simp add: s1_def)
  have t2: "SPIFLASH_async_trigger H s1 0 = (0, s2)"
    using trigger_bcw_check_busy [of s1 H] Suc.prems(1-3) v(2)
    by (simp add: s1_def s2_def sr_data_def)
  have busy2: "chip_busy_for H (cmd_tbl s2) (count_list (hal_log s2) (sr_poll (cmd_tbl s2))) n"
    using chip_busy_for_next [OF Suc.prems(4)]
    by (simp add: s1_def s2_def sr_poll_def)
  have st2: "busy_pre_check s2 = 0" "busy_check_wait s2 = BCW_READ_SR" "op s2 \<noteq> SPIFLASH_OP_IDLE"
    using Suc.prems(1-3) by (simp_all add: s1_def s2_def)
  have turns: "exe_turns (2 * Suc n + 1) H (0, s) = exe_turns (2 * n + 1) H (0, s2)"
    using t1 t2 Suc.prems(3) by (simp add: SPIFLASH_OK_def s1_def s2_def)
  show ?case
    unfolding turns
    using Suc.IH [OF st2 busy2]
    by (simp add: s1_def s2_def)
qed

lemma unat_DECR_WAIT: "unat (DECR_WAIT t) = max 1 (unat t div 2)"
proof -
  have "unat (t div 2) = unat t div 2"
    by (simp add: unat_div)
  moreover have "t div 2 = 0 \<longleftrightarrow> unat t div 2 = 0"
    by (metis calculation unat_eq_0)
  ultimately show ?thesis
    by (auto simp add: DECR_WAIT_def max_def)
qed

lemma backoff_cons: "t # tl (backoff t n) = backoff t n"
  by (cases n) simp_all

lemma wait_durations_poll_events:
  "map unat (wait_durations (poll_events c t n)) = tl (backoff (unat t) n)"
  by (induction n arbitrary: t) (simp_all add: sr_poll_def unat_DECR_WAIT backoff_cons)

lemma wait_durations_backoff_events:
  "map unat (wait_durations (backoff_events c t n)) = backoff (unat t) n"
  by (simp add: backoff_events_def wait_durations_poll_events backoff_cons)

text \<open>
  C5, as the code has it. Take any state in which a wait-bearing step has armed the busy
  wait (\<open>busy_check_wait = BCW_WAIT\<close>) with a period \<open>T = wait_period_ms\<close> that is not 0,
  and a chip that reports busy on the next \<open>n\<close> status reads and ready on the one after.
  Then \<open>2 n + 2\<close> turns of the loop succeed and make exactly the calls of
  \<open>backoff_events\<close>: chip select off and a wait, then a status read, \<open>n + 1\<close> times over. The
  waits last \<open>T\<close>, then each the half of the one before rounded down, with a floor of 1.
  The last status read has the busy bit clear, and the next turn hands over to the
  operation's own result handling with the sub-machine idle. (With \<open>T = 0\<close> the code waits
  once for 0 ms and reads no status at all.)
\<close>

theorem busy_wait_backoff:
  assumes "busy_pre_check s = 0" and "busy_check_wait s = BCW_WAIT"
    and "op s \<noteq> SPIFLASH_OP_IDLE" and "wait_period_ms s \<noteq> 0"
    and "chip_busy_for H (cmd_tbl s) (count_list (hal_log s) (sr_poll (cmd_tbl s))) n"
  shows "fst (exe_turns (2 * n + 2) H (0, s)) = SPIFLASH_OK \<and>
     hal_log (snd (exe_turns (2 * n + 2) H (0, s)))
       = hal_log s @ backoff_events (cmd_tbl s) (wait_period_ms s) n \<and>
     map unat (wait_durations (backoff_events (cmd_tbl s) (wait_period_ms s) n))
       = backoff (unat (wait_period_ms s)) n \<and>
     busy_check_wait (snd (exe_turns (2 * n + 2) H (0, s))) = BCW_CHECK \<and>
     spiflash_is_hwbusy s (sr_data (snd (exe_turns (2 * n + 2) H (0, s)))) = 0 \<and>
     spiflash_end_async H (snd (exe_turns (2 * n + 2) H (0, s))) 0
       = end_continue H
           ((snd (exe_turns (2 * n + 2) H (0, s)))
              \<lparr>hal_log := hal_log (snd (exe_turns (2 * n + 2) H (0, s))) @ [HAL_cs False],
               busy_check_wait := BCW_IDLE\<rparr>) 0"
proof -
  define s1 where "s1 = s\<lparr>busy_check_wait := BCW_READ_SR,
      hal_log := hal_log s @ [HAL_cs False, HAL_wait (wait_period_ms s)]\<rparr>"
  have t1: "SPIFLASH_async_trigger H s 0 = (0, s1)"
    using trigger_bcw_wait [OF assms(1-3)] assms(4) by (simp add: s1_def)
  have turns: "exe_turns (2 * n + 2) H (0, s) = exe_turns (2 * n + 1) H (0, s1)"
    using t1 assms(3) by (simp add: SPIFLASH_OK_def)
  have st1: "busy_pre_check s1 = 0" "busy_check_wait s1 = BCW_READ_SR" "op s1 \<noteq> SPIFLASH_OP_IDLE"
    using assms(1-3) by (simp_all add: s1_def)
  have busy1: "chip_busy_for H (cmd_tbl s1) (count_list (hal_log s1) (sr_poll (cmd_tbl s1))) n"
    using assms(5) by (simp add: s1_def sr_poll_def)
  define r where "r = snd (exe_turns (2 * n + 1) H (0, s1))"
  have loop: "fst (exe_turns (2 * n + 1) H (0, s1)) = 0"
    "hal_log r = hal_log s1 @ poll_events (cmd_tbl s1) (wait_period_ms s1) n"
    "busy_check_wait r = BCW_CHECK" "busy_pre_check r = 0" "cmd_tbl r = cmd_tbl s1"
    "sr_data r AND sr_busy_bit (cmd_tbl s1) = 0"
    using poll_loop [OF st1 busy1] by (simp_all add: r_def)
  have fin: "spiflash_end_async H r 0
      = end_continue H (r\<lparr>hal_log := hal_log r @ [HAL_cs False], busy_check_wait := BCW_IDLE\<rparr>) 0"
    using loop by (intro end_async_bcw_check_ready) simp_all
  have s1_simps: "hal_log s1 = hal_log s @ [HAL_cs False, HAL_wait (wait_period_ms s)]"
    "cmd_tbl s1 = cmd_tbl s" "wait_period_ms s1 = wait_period_ms s"
    by (simp_all add: s1_def)
  have w: "map unat (wait_durations (backoff_events (cmd_tbl s) (wait_period_ms s) n))
       = backoff (unat (wait_period_ms s)) n"
    by (rule wait_durations_backoff_events)
  have l: "hal_log r = hal_log s @ backoff_events (cmd_tbl s) (wait_period_ms s) n"
    using loop(2) by (simp add: s1_simps backoff_events_def)
  have b: "spiflash_is_hwbusy s (sr_data r) = 0"
    using loop(6) by (simp add: s1_simps spiflash_is_hwbusy_def)
  have f: "fst (exe_turns (2 * n + 1) H (0, s1)) = SPIFLASH_OK"
    using loop(1) by (simp only: SPIFLASH_OK_def)
  show ?thesis
    unfolding turns r_def [symmetric]
    using f l w loop(3) b fin by blast
qed

lemma hal_busy_twice_busy: "chip_busy_for hal_busy_twice SPIFLASH_CMD_TBL_STANDARD 0 2"
  by (simp add: chip_busy_for_def sr_report_def hal_busy_twice_def SPIFLASH_CMD_TBL_STANDARD_def)

text \<open>Three milliseconds and two busy reads: waits of 3, 1 and 1 ms.\<close>

theorem busy_wait_backoff_witness:
  "busy_pre_check spi_programming = 0 \<and> busy_check_wait spi_programming = BCW_WAIT \<and>
   op spi_programming \<noteq> SPIFLASH_OP_IDLE \<and> wait_period_ms spi_programming = 3 \<and>
   chip_busy_for hal_busy_twice (cmd_tbl spi_programming)
     (count_list (hal_log spi_programming) (sr_poll (cmd_tbl spi_programming))) 2 \<and>
   fst (exe_turns 6 hal_busy_twice (0, spi_programming)) = SPIFLASH_OK \<and>
   hal_log (snd (exe_turns 6 hal_busy_twice (0, spi_programming)))
     = [HAL_cs False, HAL_wait 3, HAL_cs True, HAL_txrx [0x05] 1 1,
        HAL_cs False, HAL_wait 1, HAL_cs True, HAL_txrx [0x05] 1 1,
        HAL_cs False, HAL_wait 1, HAL_cs True, HAL_txrx [0x05] 1 1] \<and>
   backoff 3 2 = [3, 1, 1] \<and>
   busy_check_wait (snd (exe_turns 6 hal_busy_twice (0, spi_programming))) = BCW_CHECK"
proof -
  have st: "busy_pre_check spi_programming = 0" "busy_check_wait spi_programming = BCW_WAIT"
    "op spi_programming \<noteq> SPIFLASH_OP_IDLE" "wait_period_ms spi_programming \<noteq> 0"
    "wait_period_ms spi_programming = 3"
    "cmd_tbl spi_programming = SPIFLASH_CMD_TBL_STANDARD" "hal_log spi_programming = []"
    by (simp_all add: spi_programming_def spi_typical_def SPIFLASH_init_def)
  have busy: "chip_busy_for hal_busy_twice (cmd_tbl spi_programming)
     (count_list (hal_log spi_programming) (sr_poll (cmd_tbl spi_programming))) 2"
    using hal_busy_twice_busy by (simp add: st)
  have ev: "backoff_events SPIFLASH_CMD_TBL_STANDARD 3 2
     = [HAL_cs False, HAL_wait 3, HAL_cs True, HAL_txrx [0x05] 1 1,
        HAL_cs False, HAL_wait 1, HAL_cs True, HAL_txrx [0x05] 1 1,
        HAL_cs False, HAL_wait 1, HAL_cs True, HAL_txrx [0x05] 1 1]"
    by code_simp
  have bo: "backoff 3 2 = [3, 1, 1]"
    by code_simp
  show ?thesis
    using busy_wait_backoff [OF st(1-4) busy] busy st ev bo
    by simp
qed

text \<open>
  C5 as stated fails for a nominal time of 0: with \<open>page_program_ms = 0\<close> and a chip that
  is busy, a one byte write waits once for 0 ms, reads no status register and finishes.
\<close>

theorem busy_wait_zero_period_counterexample:
  "page_program_ms (cfg_typical\<lparr>page_program_ms := 0\<rparr>) = 0 \<and>
   hal_busy_twice [] [0x05] 1 1 = (0, [0x01]) \<and>
   map_option (\<lambda>(res, s). (res, op s, hal_log s))
     (SPIFLASH_write 20 hal_busy_twice
        (spi_typical\<lparr>cfg := cfg_typical\<lparr>page_program_ms := 0\<rparr>\<rparr>) 0 1 [0xAA])
     = Some (SPIFLASH_OK, SPIFLASH_OP_IDLE,
         [HAL_cs True, HAL_txrx [0x06] 1 0, HAL_cs False,
          HAL_cs True, HAL_txrx [0x02, 0x00, 0x00, 0x00] 4 0, HAL_txrx [0xAA] 1 0,
          HAL_cs False, HAL_wait 0, HAL_cs False])"
  by code_simp

section \<open>Page program\<close>

lemma page_chunks_mod: "page_chunks P a l = page_chunks P (a mod P) l"
proof (induction l arbitrary: a rule: less_induct)
  case (less l)
  show ?case
  proof (cases "l = 0 \<or> P = 0")
    case True
    then show ?thesis by (auto simp add: page_chunks.simps)
  next
    case False
    define c where "c = min l (P - a mod P)"
    have cpos: "0 < c" using False by (simp add: c_def)
    have lt: "l - c < l" using False cpos by simp
    have "page_chunks P (a + c) (l - c) = page_chunks P ((a + c) mod P) (l - c)"
      by (rule less.IH [OF lt])
    also have "(a + c) mod P = (a mod P + c) mod P"
      by (simp add: mod_simps)
    also have "page_chunks P ((a mod P + c) mod P) (l - c) = page_chunks P (a mod P + c) (l - c)"
      by (rule less.IH [OF lt, symmetric])
    finally have rec: "page_chunks P (a + c) (l - c) = page_chunks P (a mod P + c) (l - c)" .
    show ?thesis
      using False rec
      by (subst page_chunks.simps, subst (2) page_chunks.simps) (simp add: c_def)
  qed
qed

lemma sum_page_chunks: "0 < P \<Longrightarrow> sum_list (page_chunks P a l) = l"
proof (induction P a l rule: page_chunks.induct)
  case (1 P a l)
  show ?case
  proof (cases "l = 0")
    case True
    then show ?thesis by (simp add: page_chunks.simps)
  next
    case False
    then show ?thesis
      using 1 by (subst page_chunks.simps) simp
  qed
qed

lemma unat_page_offset:
  fixes a :: u32
  shows "unat (a AND (2 ^ k - 1)) = unat a mod 2 ^ k"
proof -
  have "a AND (2 ^ k - 1) = take_bit k a"
    by (simp only: take_bit_eq_mask mask_eq_decr_exp)
  then have "unat (a AND (2 ^ k - 1)) = unat (take_bit k a)"
    by (rule arg_cong)
  also have "\<dots> = take_bit k (unat a)"
    by (rule unsigned_take_bit_eq)
  also have "\<dots> = unat a mod 2 ^ k"
    by (rule take_bit_eq_mod)
  finally show ?thesis .
qed

lemma unat_exp_u32: "k < 32 \<Longrightarrow> unat (2 ^ k :: u32) = 2 ^ k"
proof -
  assume k: "k < 32"
  have "(2 ^ k :: u32) = of_nat (2 ^ k)"
    by simp
  then have "unat (2 ^ k :: u32) = 2 ^ k mod 2 ^ 32"
    by (simp only: unat_of_nat) simp
  moreover have "(2::nat) ^ k < 2 ^ 32"
    using k by (intro power_strict_increasing) simp_all
  ultimately show ?thesis
    by simp
qed

lemma unat_rem_pg_sz:
  fixes a :: u32
  assumes "k < 32"
  shows "unat (2 ^ k - (a AND (2 ^ k - 1))) = 2 ^ k - unat a mod 2 ^ k"
proof -
  have p: "unat (2 ^ k :: u32) = 2 ^ k"
    using assms by (rule unat_exp_u32)
  have "unat (a AND (2 ^ k - 1)) < 2 ^ k"
    by (simp add: unat_page_offset)
  then have le: "a AND (2 ^ k - 1) \<le> 2 ^ k"
    using p by (simp add: word_le_nat_alt)
  show ?thesis
    using unat_sub [OF le] p by (simp add: unat_page_offset)
qed

lemma unat_wr_sz:
  assumes "page_sz (cfg s) = 2 ^ k" "k < 32"
  shows "unat (wr_sz_of s) = min (unat (wr_len s)) (2 ^ k - unat (addr s) mod 2 ^ k)"
  using assms(1) unat_rem_pg_sz [OF assms(2), of "addr s"]
  by (auto simp add: wr_sz_of_def word_less_nat_alt min_def)

lemma wr_sz_le: "wr_sz_of s \<le> wr_len s"
  by (simp add: wr_sz_of_def not_less)

lemma page_chunks_advance:
  assumes P: "page_sz (cfg s) = 2 ^ k" "k < 32" and nz: "wr_len s \<noteq> 0"
  shows "page_chunks (2 ^ k) (unat (addr s)) (unat (wr_len s))
         = unat (wr_sz_of s) #
           page_chunks (2 ^ k) (unat (addr s + wr_sz_of s)) (unat (wr_len s - wr_sz_of s))"
proof -
  let ?c = "min (unat (wr_len s)) (2 ^ k - unat (addr s) mod 2 ^ k)"
  have c: "unat (wr_sz_of s) = ?c" by (rule unat_wr_sz [OF P])
  have l: "unat (wr_len s - wr_sz_of s) = unat (wr_len s) - ?c"
    using unat_sub [OF wr_sz_le [of s]] c by simp
  have dvd: "(2::nat) ^ k dvd 2 ^ LENGTH(32)"
    using P(2) by (intro le_imp_power_dvd) simp
  have "unat (addr s + wr_sz_of s) = (unat (addr s) + unat (wr_sz_of s)) mod 2 ^ LENGTH(32)"
    by (simp only: unat_word_ariths)
  then have "unat (addr s + wr_sz_of s) mod 2 ^ k
      = (unat (addr s) + unat (wr_sz_of s)) mod 2 ^ LENGTH(32) mod 2 ^ k"
    by (rule arg_cong)
  also have "\<dots> = (unat (addr s) + unat (wr_sz_of s)) mod 2 ^ k"
    using dvd by (rule mod_mod_cancel)
  finally have a: "unat (addr s + wr_sz_of s) mod 2 ^ k = (unat (addr s) + ?c) mod 2 ^ k"
    by (simp only: c)
  have "page_chunks (2 ^ k) (unat (addr s + wr_sz_of s)) (unat (wr_len s) - ?c)
        = page_chunks (2 ^ k) (unat (addr s) + ?c) (unat (wr_len s) - ?c)"
    by (subst page_chunks_mod, subst (2) page_chunks_mod) (simp only: a)
  moreover have "unat (wr_len s) \<noteq> 0"
    using nz by (simp add: unat_eq_0)
  ultimately show ?thesis
    by (subst page_chunks.simps) (simp add: c l)
qed

lemma pp_frame_tail:
  "pp_frame s a = page_program (cmd_tbl s) # address_bytes s a @
       take (unat (addr_dummy_sz (cfg s))) (scratch_tail s)"
  by (simp add: pp_frame_def scratch_tail_def)

lemma addr_frame_eq:
  assumes "addr_frame_len s \<le> length (tx_internal_buf s)"
  shows "spiflash_compose_address s a 1 ((tx_internal_buf s)[0 := c])
         = c # address_bytes s a @ scratch_tail s"
proof -
  have len: "1 + unat (addr_sz (cfg s)) \<le> length ((tx_internal_buf s)[0 := c])"
    using assms by (simp add: addr_frame_len_def)
  have ne: "tx_internal_buf s \<noteq> []"
    using assms by (auto simp add: addr_frame_len_def)
  then have hd: "take 1 ((tx_internal_buf s)[0 := c]) = [c]"
    by (cases "tx_internal_buf s") simp_all
  show ?thesis
    using compose_address_eq [OF len, of a] hd
    by (simp add: scratch_tail_def)
qed

lemma length_address_bytes [simp]: "length (address_bytes s a) = unat (addr_sz (cfg s))"
  by (simp add: address_bytes_def)

lemma take_addr_frame:
  "take (addr_frame_len s) (c # address_bytes s a @ scratch_tail s)
     = c # address_bytes s a @ take (unat (addr_dummy_sz (cfg s))) (scratch_tail s)"
  by (simp add: addr_frame_len_def)

lemma compose_address_byte_cong:
  "cfg s' = cfg s \<Longrightarrow> compose_address_byte s' a i = compose_address_byte s a i"
  by (simp add: compose_address_byte_def cong: if_cong)

lemma spiflash_compose_address_cong:
  "cfg s' = cfg s \<Longrightarrow> spiflash_compose_address s' a off b = spiflash_compose_address s a off b"
  by (simp add: spiflash_compose_address_def compose_address_byte_cong [of s' s])

lemma address_bytes_cong:
  "cfg s' = cfg s \<Longrightarrow> address_bytes s' a = address_bytes s a"
  by (simp add: address_bytes_def compose_address_byte_cong [of s' s])

lemma begin_wren_eq:
  "begin_wren H s =
     (fst (H (hal_log s @ [HAL_cs True]) [write_enable (cmd_tbl s)] 1 0),
      s\<lparr>hal_log := hal_log s @ [HAL_cs True, HAL_txrx [write_enable (cmd_tbl s)] 1 0]\<rparr>)"
  by (simp add: begin_wren_def hal_defs)

lemma begin_write_addr_eq:
  assumes "addr_frame_len s \<le> length (tx_internal_buf s)"
  shows "begin_write_addr H s =
     (fst (H (hal_log s @ [HAL_cs True]) (pp_frame s (addr s)) (addr_frame_len s) 0),
      s\<lparr>tx_internal_buf := page_program (cmd_tbl s) # address_bytes s (addr s) @ scratch_tail s,
        hal_log := hal_log s @ [HAL_cs True, HAL_txrx (pp_frame s (addr s)) (addr_frame_len s) 0]\<rparr>)"
proof -
  have fl: "addr_frame_len (s\<lparr>hal_log := l, tx_internal_buf := b\<rparr>) = addr_frame_len s" for l b
    by (simp add: addr_frame_len_def)
  have ca: "spiflash_compose_address (s\<lparr>hal_log := l, tx_internal_buf := b\<rparr>) a off b'
      = spiflash_compose_address s a off b'" for l b a off b'
    by (rule spiflash_compose_address_cong) simp
  show ?thesis
    using addr_frame_eq [OF assms, of "addr s" "page_program (cmd_tbl s)"]
    by (simp add: begin_write_addr_def hal_defs Let_def fl ca take_addr_frame pp_frame_tail)
qed

lemma begin_write_data_eq:
  "begin_write_data H s =
     (fst (H (hal_log s) (take (unat (wr_sz_of s)) (wr_buf s)) (unat (wr_sz_of s)) 0),
      s\<lparr>wr_buf := drop (unat (wr_sz_of s)) (wr_buf s),
        wr_len := wr_len s - wr_sz_of s,
        addr := addr s + wr_sz_of s,
        wait_period_ms := page_program_ms (cfg s),
        busy_check_wait := BCW_WAIT,
        hal_log := hal_log s @ [HAL_txrx (take (unat (wr_sz_of s)) (wr_buf s)) (unat (wr_sz_of s)) 0]\<rparr>)"
  by (simp add: begin_write_data_def hal_defs Let_def wr_sz_of_def)

lemma trigger_okD:
  assumes "SPIFLASH_async_trigger H s e = (0, s')"
  shows "\<exists>t c. spiflash_end_async H s e = (0, t) \<and> s' = t\<lparr>cb_log := c\<rparr>"
proof -
  obtain r t where e: "spiflash_end_async H s e = (r, t)"
    by (cases "spiflash_end_async H s e")
  have "fst (SPIFLASH_async_trigger H s e) = r"
    by (simp add: SPIFLASH_async_trigger_def e Let_def)
  with assms have r: "r = 0"
    by simp
  have "SPIFLASH_async_trigger H s e =
      (0, if op t = SPIFLASH_OP_IDLE \<and> async t \<noteq> 0 \<and> async_cb t
          then t\<lparr>cb_log := cb_log t @ [(op t, 0)]\<rparr> else t)"
    by (simp add: SPIFLASH_async_trigger_def e r Let_def SPIFLASH_OK_def)
  with assms have s': "s' = (if op t = SPIFLASH_OP_IDLE \<and> async t \<noteq> 0 \<and> async_cb t
          then t\<lparr>cb_log := cb_log t @ [(op t, 0)]\<rparr> else t)"
    by simp
  have "\<exists>c. s' = t\<lparr>cb_log := c\<rparr>"
  proof (cases "op t = SPIFLASH_OP_IDLE \<and> async t \<noteq> 0 \<and> async_cb t")
    case True
    with s' show ?thesis by auto
  next
    case False
    with s' have "s' = t\<lparr>cb_log := cb_log t\<rparr>" by simp
    then show ?thesis ..
  qed
  with e r show ?thesis by blast
qed

lemma same_chip_cb [simp]: "same_chip s0 (t\<lparr>cb_log := c\<rparr>) = same_chip s0 t"
  by (simp add: same_chip_def scratch_tail_def)

lemma write_inv_cb [simp]: "write_inv s0 (t\<lparr>cb_log := c\<rparr>) = write_inv s0 t"
  by (simp add: write_inv_def)

lemma write_pending_cb [simp]: "write_pending k s0 (t\<lparr>cb_log := c\<rparr>) = write_pending k s0 t"
  by (simp add: write_pending_def cong: if_cong)

lemma pp_frame_same_chip: "same_chip s0 s \<Longrightarrow> pp_frame s a = pp_frame s0 a"
  by (simp add: same_chip_def pp_frame_tail address_bytes_cong [of s s0])

lemma addr_frame_len_same_chip: "same_chip s0 s \<Longrightarrow> addr_frame_len s = addr_frame_len s0"
  by (simp add: same_chip_def addr_frame_len_def)

lemma write_frames_nonempty:
  assumes "page_sz (cfg s) = 2 ^ k" "k < 32" "wr_len s \<noteq> 0"
  shows "write_frames s0 (addr s) (wr_buf s) (page_chunks (2 ^ k) (unat (addr s)) (unat (wr_len s)))
     = [HAL_txrx [write_enable (cmd_tbl s0)] 1 0,
        HAL_txrx (pp_frame s0 (addr s)) (addr_frame_len s0) 0,
        HAL_txrx (take (unat (wr_sz_of s)) (wr_buf s)) (unat (wr_sz_of s)) 0] @
       write_frames s0 (addr s + wr_sz_of s) (drop (unat (wr_sz_of s)) (wr_buf s))
         (page_chunks (2 ^ k) (unat (addr s + wr_sz_of s)) (unat (wr_len s - wr_sz_of s)))"
  by (simp add: page_chunks_advance [OF assms])

text \<open>Each step of a write keeps the invariant and sends what was pending.\<close>

lemma end_continue_write:
  assumes inv: "write_inv s0 t" and bpc: "busy_pre_check t = 0"
    and P: "page_sz (cfg s0) = 2 ^ k" "k < 32"
    and nidle: "op t \<noteq> SPIFLASH_OP_IDLE"
    and step: "end_continue H t 0 = (0, t')"
  shows "write_inv s0 t' \<and>
     filter sends_only (hal_log t') @ write_pending k s0 t'
       = filter sends_only (hal_log t) @ write_pending k s0 t"
proof -
  have sc: "same_chip s0 t" using inv by (simp add: write_inv_def)
  then have c: "cfg t = cfg s0" "cmd_tbl t = cmd_tbl s0" "scratch_tail t = scratch_tail s0"
    "addr_frame_len s0 \<le> length (tx_internal_buf t)"
    by (simp_all add: same_chip_def)
  have Pt: "page_sz (cfg t) = 2 ^ k" using c P by simp
  have fl: "addr_frame_len t \<le> length (tx_internal_buf t)"
    using c by (simp add: addr_frame_len_def)
  consider (wren) "op t = SPIFLASH_OP_WRITE_sWREN" | (addr) "op t = SPIFLASH_OP_WRITE_sADDR"
    | (data) "op t = SPIFLASH_OP_WRITE_sDATA"
    using inv nidle by (auto simp add: write_inv_def)
  then show ?thesis
  proof cases
    case wren
    then have nz: "wr_len t \<noteq> 0" using inv by (simp add: write_inv_def)
    define u where "u = t\<lparr>hal_log := hal_log t @ [HAL_cs False], op := SPIFLASH_OP_WRITE_sADDR\<rparr>"
    have flu: "addr_frame_len u \<le> length (tx_internal_buf u)"
      using fl by (simp add: u_def addr_frame_len_def)
    have scu: "same_chip s0 u"
      using c by (simp add: u_def same_chip_def scratch_tail_def)
    have "end_continue H t 0 = begin_write_addr H u"
      using wren bpc
      by (simp add: end_continue_def end_handle_results_def spiflash_begin_async_def hal_defs
          SPIFLASH_OK_def u_def)
    with step have "begin_write_addr H u = (0, t')"
      by simp
    then have t': "t' = u\<lparr>tx_internal_buf :=
          page_program (cmd_tbl u) # address_bytes u (addr u) @ scratch_tail u,
        hal_log := hal_log u @ [HAL_cs True, HAL_txrx (pp_frame s0 (addr u)) (addr_frame_len s0) 0]\<rparr>"
      by (simp add: begin_write_addr_eq [OF flu] pp_frame_same_chip [OF scu]
          addr_frame_len_same_chip [OF scu])
    have tl: "scratch_tail t' = scratch_tail s0"
      using c(1,3) by (simp add: t' scratch_tail_def u_def)
    have "length (tx_internal_buf t') = length (tx_internal_buf t)"
      using fl by (simp add: t' u_def scratch_tail_def addr_frame_len_def)
    then have len: "addr_frame_len s0 \<le> length (tx_internal_buf t')"
      using c(4) by simp
    have f: "op t' = SPIFLASH_OP_WRITE_sADDR" "busy_pre_check t' = 0" "wr_len t' = wr_len t"
      "cfg t' = cfg t" "cmd_tbl t' = cmd_tbl t"
      using bpc by (simp_all add: t' u_def)
    have i: "write_inv s0 t'"
      using nz tl len c(1,2) f by (simp add: write_inv_def same_chip_def)
    have p: "filter sends_only (hal_log t') @ write_pending k s0 t'
       = filter sends_only (hal_log t) @ write_pending k s0 t"
      using wren bpc
      by (simp add: write_pending_def write_frames_nonempty [OF Pt P(2) nz] t' u_def)
    show ?thesis using i p by simp
  next
    case addr
    then have nz: "wr_len t \<noteq> 0" using inv by (simp add: write_inv_def)
    define u where "u = t\<lparr>op := SPIFLASH_OP_WRITE_sDATA\<rparr>"
    have "end_continue H t 0 = begin_write_data H u"
      using addr bpc
      by (simp add: end_continue_def end_handle_results_def spiflash_begin_async_def hal_defs
          SPIFLASH_OK_def u_def)
    with step have "begin_write_data H u = (0, t')"
      by simp
    moreover have wu: "wr_sz_of u = wr_sz_of t"
      by (simp add: u_def wr_sz_of_def cong: if_cong)
    ultimately have t': "t' = u\<lparr>wr_buf := drop (unat (wr_sz_of t)) (wr_buf t),
        wr_len := wr_len t - wr_sz_of t,
        addr := addr t + wr_sz_of t,
        wait_period_ms := page_program_ms (cfg t),
        busy_check_wait := BCW_WAIT,
        hal_log := hal_log t @ [HAL_txrx (take (unat (wr_sz_of t)) (wr_buf t)) (unat (wr_sz_of t)) 0]\<rparr>"
      by (simp add: begin_write_data_eq) (simp add: u_def)
    have tl: "scratch_tail t' = scratch_tail s0"
      using c(1,3) by (simp add: t' scratch_tail_def u_def)
    have len: "addr_frame_len s0 \<le> length (tx_internal_buf t')"
      using c(4) by (simp add: t' u_def)
    have f: "op t' = SPIFLASH_OP_WRITE_sDATA" "busy_pre_check t' = 0"
      "cfg t' = cfg t" "cmd_tbl t' = cmd_tbl t"
      using bpc by (simp_all add: t' u_def)
    have i: "write_inv s0 t'"
      using tl len c(1,2) f by (simp add: write_inv_def same_chip_def)
    have p: "filter sends_only (hal_log t') @ write_pending k s0 t'
       = filter sends_only (hal_log t) @ write_pending k s0 t"
      using addr bpc
      by (simp add: write_pending_def write_frames_nonempty [OF Pt P(2) nz] t' u_def)
    show ?thesis using i p by simp
  next
    case data
    show ?thesis
    proof (cases "wr_len t = 0")
      case True
      have "end_continue H t 0
          = (0, spiflash_finalize (hal_cs False (t\<lparr>op := SPIFLASH_OP_IDLE\<rparr>)))"
        using data True
        by (simp add: end_continue_def end_handle_results_def SPIFLASH_OK_def)
      with step have t': "t' = spiflash_finalize (hal_cs False (t\<lparr>op := SPIFLASH_OP_IDLE\<rparr>))"
        by simp
      have tl: "scratch_tail t' = scratch_tail s0"
        using c(1,3) by (simp add: t' scratch_tail_def spiflash_finalize_def hal_defs)
      have len: "addr_frame_len s0 \<le> length (tx_internal_buf t')"
        using c(4) by (simp add: t' spiflash_finalize_def hal_defs)
      have f: "op t' = SPIFLASH_OP_IDLE" "busy_pre_check t' = 0"
        "cfg t' = cfg t" "cmd_tbl t' = cmd_tbl t"
        by (simp_all add: t' spiflash_finalize_def hal_defs)
      have i: "write_inv s0 t'"
        using tl len c(1,2) f by (simp add: write_inv_def same_chip_def)
      have p: "filter sends_only (hal_log t') @ write_pending k s0 t'
         = filter sends_only (hal_log t) @ write_pending k s0 t"
        using data True
        by (simp add: write_pending_def page_chunks.simps t' spiflash_finalize_def hal_defs)
      show ?thesis using i p by simp
    next
      case False
      define u where "u = t\<lparr>op := SPIFLASH_OP_WRITE_sWREN\<rparr>"
      have "end_continue H t 0 = begin_wren H u"
        using data False bpc
        by (simp add: end_continue_def end_handle_results_def spiflash_begin_async_def
            SPIFLASH_OK_def u_def)
      with step have "begin_wren H u = (0, t')"
        by simp
      then have t': "t' = u\<lparr>hal_log := hal_log t @
          [HAL_cs True, HAL_txrx [write_enable (cmd_tbl s0)] 1 0]\<rparr>"
        using c(2) by (simp add: begin_wren_eq) (simp add: u_def)
      have tl: "scratch_tail t' = scratch_tail s0"
        using c(1,3) by (simp add: t' scratch_tail_def u_def)
      have len: "addr_frame_len s0 \<le> length (tx_internal_buf t')"
        using c(4) by (simp add: t' u_def)
      have f: "op t' = SPIFLASH_OP_WRITE_sWREN" "busy_pre_check t' = 0" "wr_len t' = wr_len t"
        "cfg t' = cfg t" "cmd_tbl t' = cmd_tbl t"
        using bpc by (simp_all add: t' u_def)
      have i: "write_inv s0 t'"
        using tl len c(1,2) f False by (simp add: write_inv_def same_chip_def)
      have p: "filter sends_only (hal_log t') @ write_pending k s0 t'
         = filter sends_only (hal_log t) @ write_pending k s0 t"
        using data bpc
        by (simp add: write_pending_def write_frames_nonempty [OF Pt P(2) False] t' u_def)
      show ?thesis using i p by simp
    qed
  qed
qed

lemma end_async_precheck:
  assumes "busy_pre_check s \<noteq> 0"
  shows "spiflash_end_async H s 0 =
     (if spiflash_is_hwbusy s (sr_data s) \<noteq> 0 then (SPIFLASH_ERR_HW_BUSY, hal_cs False s)
      else spiflash_begin_async H (s\<lparr>busy_pre_check := 0\<rparr>))"
  using assms by (simp add: spiflash_end_async_def SPIFLASH_OK_def)

lemma end_async_wait:
  assumes "busy_pre_check s = 0" "busy_check_wait s = BCW_WAIT"
  shows "spiflash_end_async H s 0 =
     (0, s\<lparr>busy_check_wait := (if wait_period_ms s = 0 then BCW_IDLE else BCW_READ_SR),
           hal_log := hal_log s @ [HAL_cs False, HAL_wait (wait_period_ms s)]\<rparr>)"
  using assms by (simp add: spiflash_end_async_def SPIFLASH_OK_def hal_defs Let_def)

lemma end_async_read_sr:
  assumes "busy_pre_check s = 0" "busy_check_wait s = BCW_READ_SR"
  shows "spiflash_end_async H s 0 =
     (fst (H (hal_log s @ [HAL_cs True]) [read_sr (cmd_tbl s)] 1 1),
      s\<lparr>busy_check_wait := BCW_CHECK,
        tx_internal_buf :=
          store_rx (take 1 (snd (H (hal_log s @ [HAL_cs True]) [read_sr (cmd_tbl s)] 1 1)))
            (tx_internal_buf s),
        hal_log := hal_log s @ [HAL_cs True, HAL_txrx [read_sr (cmd_tbl s)] 1 1]\<rparr>)"
  using assms by (simp add: spiflash_end_async_def SPIFLASH_OK_def hal_defs Let_def bcw_defs)

lemma end_async_check:
  assumes "busy_pre_check s = 0" "busy_check_wait s = BCW_CHECK"
  shows "spiflash_end_async H s 0 =
     (if sr_data s AND sr_busy_bit (cmd_tbl s) \<noteq> 0
      then (0, s\<lparr>wait_period_ms := DECR_WAIT (wait_period_ms s), busy_check_wait := BCW_READ_SR,
                hal_log := hal_log s @ [HAL_cs False, HAL_wait (DECR_WAIT (wait_period_ms s))]\<rparr>)
      else end_continue H (s\<lparr>hal_log := hal_log s @ [HAL_cs False], busy_check_wait := BCW_IDLE\<rparr>) 0)"
  using assms
  by (simp add: spiflash_end_async_def SPIFLASH_OK_def hal_defs Let_def bcw_defs
      spiflash_is_hwbusy_def sr_data_def)

lemma end_async_idle:
  assumes "busy_pre_check s = 0" "busy_check_wait s \<noteq> BCW_WAIT"
    "busy_check_wait s \<noteq> BCW_READ_SR" "busy_check_wait s \<noteq> BCW_CHECK"
  shows "spiflash_end_async H s 0 = end_continue H s 0"
  using assms by (simp add: spiflash_end_async_def SPIFLASH_OK_def)

lemma scratch_tail_store_rx:
  assumes "length rx \<le> 1"
  shows "drop (1 + n) (store_rx rx b) = drop (1 + n) b"
  using assms by (cases rx) (simp_all add: store_rx_def)

lemma length_store_rx:
  assumes "length rx \<le> 1" "1 \<le> length b"
  shows "length (store_rx rx b) = length b"
  using assms by (simp add: store_rx_def)

lemma write_inv_fields:
  assumes "write_inv s0 s" "cfg t = cfg s" "cmd_tbl t = cmd_tbl s"
    "scratch_tail t = scratch_tail s"
    "length (tx_internal_buf t) = length (tx_internal_buf s)"
    "op t = op s" "busy_pre_check t = busy_pre_check s" "wr_len t = wr_len s"
  shows "write_inv s0 t"
  using assms by (simp add: write_inv_def same_chip_def)

lemma write_pending_fields:
  assumes "op t = op s" "busy_pre_check t = busy_pre_check s" "addr t = addr s"
    "wr_buf t = wr_buf s" "wr_len t = wr_len s"
  shows "write_pending k s0 t = write_pending k s0 s"
  using assms by (simp add: write_pending_def cong: if_cong)

lemma write_step:
  assumes inv: "write_inv s0 s" and P: "page_sz (cfg s0) = 2 ^ k" "k < 32"
    and nidle: "op s \<noteq> SPIFLASH_OP_IDLE"
    and step: "SPIFLASH_async_trigger H s 0 = (0, s')"
  shows "write_inv s0 s' \<and>
     filter sends_only (hal_log s') @ write_pending k s0 s'
       = filter sends_only (hal_log s) @ write_pending k s0 s"
proof -
  from trigger_okD [OF step] obtain t c
    where e: "spiflash_end_async H s 0 = (0, t)" and s': "s' = t\<lparr>cb_log := c\<rparr>"
    by blast
  have sc: "same_chip s0 s" using inv by (simp add: write_inv_def)
  then have c: "cfg s = cfg s0" "cmd_tbl s = cmd_tbl s0" "scratch_tail s = scratch_tail s0"
    "addr_frame_len s0 \<le> length (tx_internal_buf s)"
    by (simp_all add: same_chip_def)
  have Ps: "page_sz (cfg s) = 2 ^ k" using c P by simp
  have ne: "1 \<le> length (tx_internal_buf s)"
    using c(4) by (simp add: addr_frame_len_def)
  have main: "write_inv s0 t \<and>
     filter sends_only (hal_log t) @ write_pending k s0 t
       = filter sends_only (hal_log s) @ write_pending k s0 s"
  proof (cases "busy_pre_check s \<noteq> 0")
    case True
    then have opw: "op s = SPIFLASH_OP_WRITE_sWREN" and nz: "wr_len s \<noteq> 0"
      using inv by (simp_all add: write_inv_def)
    have nb: "spiflash_is_hwbusy s (sr_data s) = 0"
      using e end_async_precheck [OF True, of H]
      by (auto simp add: SPIFLASH_ERR_HW_BUSY_def split: if_splits)
    have "spiflash_end_async H s 0 = begin_wren H (s\<lparr>busy_pre_check := 0\<rparr>)"
      using end_async_precheck [OF True, of H] nb opw
      by (simp add: spiflash_begin_async_def)
    with e have t: "t = s\<lparr>busy_pre_check := 0,
        hal_log := hal_log s @ [HAL_cs True, HAL_txrx [write_enable (cmd_tbl s0)] 1 0]\<rparr>"
      using c(2) by (simp add: begin_wren_eq)
    have f: "op t = SPIFLASH_OP_WRITE_sWREN" "busy_pre_check t = 0" "wr_len t = wr_len s"
      "cfg t = cfg s" "cmd_tbl t = cmd_tbl s" "scratch_tail t = scratch_tail s"
      "tx_internal_buf t = tx_internal_buf s"
      using opw by (simp_all add: t scratch_tail_def)
    have i: "write_inv s0 t"
      using f c nz by (simp add: write_inv_def same_chip_def)
    have p: "filter sends_only (hal_log t) @ write_pending k s0 t
         = filter sends_only (hal_log s) @ write_pending k s0 s"
      using opw True
      by (simp add: write_pending_def write_frames_nonempty [OF Ps P(2) nz] t)
    show ?thesis using i p by simp
  next
    case bpc: False
    then have bpc0: "busy_pre_check s = 0" by simp
    consider (wait) "busy_check_wait s = BCW_WAIT" | (rd) "busy_check_wait s = BCW_READ_SR"
      | (chk) "busy_check_wait s = BCW_CHECK"
      | (idle) "busy_check_wait s \<noteq> BCW_WAIT" "busy_check_wait s \<noteq> BCW_READ_SR"
          "busy_check_wait s \<noteq> BCW_CHECK"
      by blast
    then show ?thesis
    proof cases
      case wait
      from e end_async_wait [OF bpc0 wait, of H]
      have t: "t = s\<lparr>busy_check_wait := (if wait_period_ms s = 0 then BCW_IDLE else BCW_READ_SR),
           hal_log := hal_log s @ [HAL_cs False, HAL_wait (wait_period_ms s)]\<rparr>"
        by simp
      have i: "write_inv s0 t"
        by (rule write_inv_fields [OF inv]) (simp_all add: t scratch_tail_def)
      have "write_pending k s0 t = write_pending k s0 s"
        by (rule write_pending_fields) (simp_all add: t)
      moreover have "filter sends_only (hal_log t) = filter sends_only (hal_log s)"
        by (simp add: t)
      ultimately have p: "filter sends_only (hal_log t) @ write_pending k s0 t
         = filter sends_only (hal_log s) @ write_pending k s0 s"
        by simp
      show ?thesis using i p by simp
    next
      case rd
      define rx where "rx = take 1 (snd (H (hal_log s @ [HAL_cs True]) [read_sr (cmd_tbl s)] 1 1))"
      have lrx: "length rx \<le> 1" by (simp add: rx_def)
      from e end_async_read_sr [OF bpc0 rd, of H]
      have t: "t = s\<lparr>busy_check_wait := BCW_CHECK,
           tx_internal_buf := store_rx rx (tx_internal_buf s),
           hal_log := hal_log s @ [HAL_cs True, HAL_txrx [read_sr (cmd_tbl s)] 1 1]\<rparr>"
        by (simp add: rx_def)
      have f: "scratch_tail t = scratch_tail s"
        "length (tx_internal_buf t) = length (tx_internal_buf s)"
        "op t = op s" "busy_pre_check t = busy_pre_check s" "wr_len t = wr_len s"
        "cfg t = cfg s" "cmd_tbl t = cmd_tbl s"
        using scratch_tail_store_rx [OF lrx] length_store_rx [OF lrx ne]
        by (simp_all add: t scratch_tail_def)
      have i: "write_inv s0 t"
        by (rule write_inv_fields [OF inv]) (simp_all add: f)
      have "write_pending k s0 t = write_pending k s0 s"
        by (rule write_pending_fields) (simp_all add: t)
      moreover have "filter sends_only (hal_log t) = filter sends_only (hal_log s)"
        by (simp add: t)
      ultimately have p: "filter sends_only (hal_log t) @ write_pending k s0 t
         = filter sends_only (hal_log s) @ write_pending k s0 s"
        by simp
      show ?thesis using i p by simp
    next
      case chk
      show ?thesis
      proof (cases "sr_data s AND sr_busy_bit (cmd_tbl s) \<noteq> 0")
        case True
        from e end_async_check [OF bpc0 chk, of H] True
        have t: "t = s\<lparr>wait_period_ms := DECR_WAIT (wait_period_ms s),
            busy_check_wait := BCW_READ_SR,
            hal_log := hal_log s @ [HAL_cs False, HAL_wait (DECR_WAIT (wait_period_ms s))]\<rparr>"
          by simp
        have i: "write_inv s0 t"
          by (rule write_inv_fields [OF inv]) (simp_all add: t scratch_tail_def)
        have "write_pending k s0 t = write_pending k s0 s"
          by (rule write_pending_fields) (simp_all add: t)
        moreover have "filter sends_only (hal_log t) = filter sends_only (hal_log s)"
          by (simp add: t)
        ultimately have p: "filter sends_only (hal_log t) @ write_pending k s0 t
           = filter sends_only (hal_log s) @ write_pending k s0 s"
          by simp
        show ?thesis using i p by simp
      next
        case False
        define u where "u = s\<lparr>hal_log := hal_log s @ [HAL_cs False], busy_check_wait := BCW_IDLE\<rparr>"
        from e end_async_check [OF bpc0 chk, of H] False
        have ec: "end_continue H u 0 = (0, t)"
          by (simp add: u_def)
        have iu: "write_inv s0 u"
          by (rule write_inv_fields [OF inv]) (simp_all add: u_def scratch_tail_def)
        have "busy_pre_check u = 0" "op u \<noteq> SPIFLASH_OP_IDLE"
          using bpc0 nidle by (simp_all add: u_def)
        moreover have "write_pending k s0 u = write_pending k s0 s"
          by (rule write_pending_fields) (simp_all add: u_def)
        moreover have "filter sends_only (hal_log u) = filter sends_only (hal_log s)"
          by (simp add: u_def)
        ultimately show ?thesis
          using end_continue_write [OF iu _ P _ ec] by simp
      qed
    next
      case idle
      from e end_async_idle [OF bpc0 idle, of H]
      have ec: "end_continue H s 0 = (0, t)"
        by simp
      from end_continue_write [OF inv bpc0 P nidle ec]
      show ?thesis .
    qed
  qed
  then show ?thesis
    by (simp add: s')
qed

lemma write_loop:
  assumes P: "page_sz (cfg s0) = 2 ^ k" "k < 32"
    and inv: "write_inv s0 s"
    and run: "spiflash_exe_loop fuel H (0, s) = Some (0, s')"
  shows "filter sends_only (hal_log s')
         = filter sends_only (hal_log s) @ write_pending k s0 s"
  using inv run
proof (induction fuel arbitrary: s)
  case 0
  then show ?case
    by (simp add: spiflash_exe_loop.simps SPIFLASH_OK_def write_pending_def split: if_splits)
next
  case (Suc n)
  show ?case
  proof (cases "op s = SPIFLASH_OP_IDLE")
    case True
    then show ?thesis
      using Suc.prems(2)
      by (simp add: spiflash_exe_loop.simps SPIFLASH_OK_def write_pending_def)
  next
    case False
    obtain r s1 where tr: "SPIFLASH_async_trigger H s 0 = (r, s1)"
      by (cases "SPIFLASH_async_trigger H s 0")
    have rest: "spiflash_exe_loop n H (r, s1) = Some (0, s')"
      using Suc.prems(2) False tr
      by (simp add: spiflash_exe_loop.simps [of "Suc n"] SPIFLASH_OK_def)
    have r0: "r = 0"
      using rest by (cases "r = 0") (simp_all add: spiflash_exe_loop.simps [of n] SPIFLASH_OK_def)
    from write_step [OF Suc.prems(1) P False tr [unfolded r0]]
    have i1: "write_inv s0 s1"
      and p1: "filter sends_only (hal_log s1) @ write_pending k s0 s1
         = filter sends_only (hal_log s) @ write_pending k s0 s"
      by simp_all
    from Suc.IH [OF i1 rest [unfolded r0]] p1
    show ?thesis by simp
  qed
qed

text \<open>
  On any transport, a blocking write of \<open>l > 0\<close> bytes that returns \<open>SPIFLASH_OK\<close> has made
  exactly the send-only transfers of the parts of \<open>[a, a + l)\<close> cut at the multiples of
  the page size.
\<close>

lemma write_frames_when_ok:
  assumes P: "page_sz (cfg s) = 2 ^ k" "k < 32"
    and idle: "op s = SPIFLASH_OP_IDLE" and sync: "async s = 0" and nz: "l \<noteq> 0"
    and fits: "addr_frame_len s \<le> length (tx_internal_buf s)"
    and run: "SPIFLASH_write fuel H s a l buf = Some (SPIFLASH_OK, s')"
  shows "filter sends_only (hal_log s')
           = filter sends_only (hal_log s) @
             write_frames s a buf (page_chunks (2 ^ k) (unat a) (unat l)) \<and>
         sum_list (page_chunks (2 ^ k) (unat a) (unat l)) = unat l"
proof -
  define s1 where "s1 = s\<lparr>addr := a, wr_buf := buf, wr_len := l, op := SPIFLASH_OP_WRITE_sWREN\<rparr>"
  define s2 where "s2 = (if could_be_busy s1 \<noteq> 0 then s1\<lparr>busy_pre_check := 1\<rparr> else s1)"
  obtain r s3 where b: "spiflash_begin_async H s2 = (r, s3)"
    by (cases "spiflash_begin_async H s2")
  have s2f: "op s2 = SPIFLASH_OP_WRITE_sWREN" "addr s2 = a" "wr_buf s2 = buf" "wr_len s2 = l"
    "cfg s2 = cfg s" "cmd_tbl s2 = cmd_tbl s" "tx_internal_buf s2 = tx_internal_buf s"
    "hal_log s2 = hal_log s" "async s2 = 0"
    using sync by (simp_all add: s2_def s1_def)
  have exe: "spiflash_exe fuel H s1 = Some (SPIFLASH_OK, s')"
    using run idle by (simp add: SPIFLASH_write_def s1_def)
  then obtain s4 where loop: "spiflash_exe_loop fuel H (r, s3) = Some (0, s4)"
    and s': "s' = spiflash_finalize s4"
    using b s2f(9)
    by (auto simp add: spiflash_exe_def Let_def s2_def [symmetric] SPIFLASH_OK_def
        split: option.splits)
  have r0: "r = 0"
    using loop by (cases "r = 0") (simp_all add: spiflash_exe_loop.simps [of fuel] SPIFLASH_OK_def)
  have P2: "page_sz (cfg s2) = 2 ^ k" using P s2f by simp
  have nz2: "wr_len s2 \<noteq> 0" using nz s2f by simp
  have ne: "1 \<le> length (tx_internal_buf s)"
    using fits by (simp add: addr_frame_len_def)
  let ?fs = "write_frames s a buf (page_chunks (2 ^ k) (unat a) (unat l))"
  have start: "write_inv s s3 \<and>
      filter sends_only (hal_log s3) @ write_pending k s s3 = filter sends_only (hal_log s) @ ?fs"
  proof (cases "busy_pre_check s2 \<noteq> 0")
    case True
    define rx where "rx = take 1 (snd (H (hal_log s2 @ [HAL_cs True]) [read_sr (cmd_tbl s2)] 1 1))"
    have lrx: "length rx \<le> 1" by (simp add: rx_def)
    have s3: "s3 = s2\<lparr>hal_log := hal_log s @ [HAL_cs True, HAL_txrx [read_sr (cmd_tbl s2)] 1 1],
        tx_internal_buf := store_rx rx (tx_internal_buf s)\<rparr>"
      using b True s2f by (simp add: spiflash_begin_async_def hal_defs rx_def)
    have f: "op s3 = SPIFLASH_OP_WRITE_sWREN" "busy_pre_check s3 \<noteq> 0" "addr s3 = a"
      "wr_buf s3 = buf" "wr_len s3 = l" "cfg s3 = cfg s" "cmd_tbl s3 = cmd_tbl s"
      "scratch_tail s3 = scratch_tail s"
      "length (tx_internal_buf s3) = length (tx_internal_buf s)"
      using True s2f scratch_tail_store_rx [OF lrx] length_store_rx [OF lrx ne]
      by (simp_all add: s3 scratch_tail_def)
    have i: "write_inv s s3"
      using f fits nz by (simp add: write_inv_def same_chip_def)
    have p: "filter sends_only (hal_log s3) @ write_pending k s s3
        = filter sends_only (hal_log s) @ ?fs"
      using f by (simp add: write_pending_def) (simp add: s3)
    show ?thesis using i p by simp
  next
    case False
    have s3: "s3 = s2\<lparr>hal_log := hal_log s @ [HAL_cs True, HAL_txrx [write_enable (cmd_tbl s)] 1 0]\<rparr>"
      using b False s2f by (simp add: spiflash_begin_async_def begin_wren_eq)
    have f: "op s3 = SPIFLASH_OP_WRITE_sWREN" "busy_pre_check s3 = 0" "addr s3 = a"
      "wr_buf s3 = buf" "wr_len s3 = l" "cfg s3 = cfg s" "cmd_tbl s3 = cmd_tbl s"
      "scratch_tail s3 = scratch_tail s"
      "length (tx_internal_buf s3) = length (tx_internal_buf s)"
      using False s2f by (simp_all add: s3 scratch_tail_def)
    have i: "write_inv s s3"
      using f fits nz by (simp add: write_inv_def same_chip_def)
    have fs: "?fs = HAL_txrx [write_enable (cmd_tbl s)] 1 0 # drop 1 ?fs"
      using write_frames_nonempty [OF P2 P(2) nz2, of s] s2f by simp
    have wp: "write_pending k s s3 = drop 1 ?fs"
      using f by (simp add: write_pending_def)
    have lg: "filter sends_only (hal_log s3)
        = filter sends_only (hal_log s) @ [HAL_txrx [write_enable (cmd_tbl s)] 1 0]"
      by (simp add: s3)
    have "[HAL_txrx [write_enable (cmd_tbl s)] 1 0] @ drop 1 ?fs = ?fs"
      using fs by simp
    then have p: "filter sends_only (hal_log s3) @ write_pending k s s3
        = filter sends_only (hal_log s) @ ?fs"
      by (simp add: wp lg)
    show ?thesis using i p by simp
  qed
  have "filter sends_only (hal_log s4) = filter sends_only (hal_log s3) @ write_pending k s s3"
    using write_loop [OF P _ loop [unfolded r0]] start by simp
  moreover have "hal_log s' = hal_log s4"
    by (simp add: s' spiflash_finalize_def)
  moreover have "sum_list (page_chunks (2 ^ k) (unat a) (unat l)) = unat l"
    by (rule sum_page_chunks) simp
  ultimately show ?thesis
    using start by simp
qed

section \<open>Synchronous and asynchronous execution\<close>

text \<open>No step of the engine reads the mode flag, the callback or its record.\<close>

lemma planner_mode [simp]:
  "spiflash_get_largest_erase_area (in_mode x y c s) a l = spiflash_get_largest_erase_area s a l"
  by (simp add: spiflash_get_largest_erase_area_def spiflash_get_supported_block_mask_def in_mode_def)

lemma erase_cmd_mode [simp]: "spiflash_get_erase_cmd (in_mode x y c s) l = spiflash_get_erase_cmd s l"
  by (simp add: spiflash_get_erase_cmd_def in_mode_def cong: if_cong)

lemma erase_time_mode [simp]: "spiflash_get_erase_time (in_mode x y c s) l = spiflash_get_erase_time s l"
  by (simp add: spiflash_get_erase_time_def in_mode_def cong: if_cong)

lemma compose_mode [simp]:
  "spiflash_compose_address (in_mode x y c s) a off b = spiflash_compose_address s a off b"
  by (rule spiflash_compose_address_cong) (simp add: in_mode_def)

lemma hal_cs_mode [simp]: "hal_cs b (in_mode x y c s) = in_mode x y c (hal_cs b s)"
  by (simp add: hal_cs_def in_mode_def)

lemma hal_wait_mode [simp]: "hal_wait ms (in_mode x y c s) = in_mode x y c (hal_wait ms s)"
  by (simp add: hal_wait_def in_mode_def)

lemma tx_only_mode [simp]:
  "tx_only H tx n (in_mode x y c s) = map_prod id (in_mode x y c) (tx_only H tx n s)"
  by (simp add: tx_only_def hal_txrx_def in_mode_def)

lemma txrx_to_dst_mode [simp]:
  "txrx_to_dst H tx n m (in_mode x y c s) = map_prod id (in_mode x y c) (txrx_to_dst H tx n m s)"
  by (simp add: txrx_to_dst_def hal_txrx_def in_mode_def)

lemma txrx_read_sr_mode [simp]:
  "txrx_read_sr H (in_mode x y c s) = map_prod id (in_mode x y c) (txrx_read_sr H s)"
  by (simp add: txrx_read_sr_def hal_txrx_def in_mode_def)

lemma fields_mode [simp]:
  "cfg (in_mode x y c s) = cfg s" "cmd_tbl (in_mode x y c s) = cmd_tbl s" "op (in_mode x y c s) = op s"
  "busy_pre_check (in_mode x y c s) = busy_pre_check s"
  "busy_check_wait (in_mode x y c s) = busy_check_wait s"
  "wait_period_ms (in_mode x y c s) = wait_period_ms s" "addr (in_mode x y c s) = addr s"
  "wr_len (in_mode x y c s) = wr_len s" "wr_buf (in_mode x y c s) = wr_buf s"
  "rd_buf (in_mode x y c s) = rd_buf s" "tx_internal_buf (in_mode x y c s) = tx_internal_buf s"
  "hal_log (in_mode x y c s) = hal_log s" "could_be_busy (in_mode x y c s) = could_be_busy s"
  "async_cb (in_mode x y c s) = y" "async (in_mode x y c s) = x" "cb_log (in_mode x y c s) = c"
  "sr_data (in_mode x y c s) = sr_data s" "reg_nbr (in_mode x y c s) = reg_nbr s"
  "addr_frame_len (in_mode x y c s) = addr_frame_len s"
  by (simp_all add: in_mode_def sr_data_def reg_nbr_def addr_frame_len_def)

lemma upd_mode:
  "(in_mode x y c s)\<lparr>tx_internal_buf := b\<rparr> = in_mode x y c (s\<lparr>tx_internal_buf := b\<rparr>)"
  "(in_mode x y c s)\<lparr>op := o'\<rparr> = in_mode x y c (s\<lparr>op := o'\<rparr>)"
  "(in_mode x y c s)\<lparr>busy_check_wait := w\<rparr> = in_mode x y c (s\<lparr>busy_check_wait := w\<rparr>)"
  "(in_mode x y c s)\<lparr>busy_pre_check := p\<rparr> = in_mode x y c (s\<lparr>busy_pre_check := p\<rparr>)"
  "(in_mode x y c s)\<lparr>wait_period_ms := ms\<rparr> = in_mode x y c (s\<lparr>wait_period_ms := ms\<rparr>)"
  "(in_mode x y c s)\<lparr>addr := a\<rparr> = in_mode x y c (s\<lparr>addr := a\<rparr>)"
  "(in_mode x y c s)\<lparr>wr_len := l\<rparr> = in_mode x y c (s\<lparr>wr_len := l\<rparr>)"
  "(in_mode x y c s)\<lparr>wr_buf := wb\<rparr> = in_mode x y c (s\<lparr>wr_buf := wb\<rparr>)"
  "(in_mode x y c s)\<lparr>rd_buf := rb\<rparr> = in_mode x y c (s\<lparr>rd_buf := rb\<rparr>)"
  by (simp_all add: in_mode_def)

lemma begin_wren_mode [simp]:
  "begin_wren H (in_mode x y c s) = map_prod id (in_mode x y c) (begin_wren H s)"
  by (simp add: begin_wren_def)

lemma begin_write_addr_mode [simp]:
  "begin_write_addr H (in_mode x y c s) = map_prod id (in_mode x y c) (begin_write_addr H s)"
  by (simp add: begin_write_addr_def Let_def upd_mode)

lemma begin_write_data_mode [simp]:
  "begin_write_data H (in_mode x y c s) = map_prod id (in_mode x y c) (begin_write_data H s)"
  by (simp add: begin_write_data_def Let_def upd_mode)

lemma begin_erase_block_mode [simp]:
  "begin_erase_block H (in_mode x y c s) = map_prod id (in_mode x y c) (begin_erase_block H s)"
  by (simp add: begin_erase_block_def Let_def upd_mode)

lemma begin_write_sr_data_mode [simp]:
  "begin_write_sr_data H (in_mode x y c s) = map_prod id (in_mode x y c) (begin_write_sr_data H s)"
  by (simp add: begin_write_sr_data_def Let_def upd_mode)

lemma begin_erase_chip_mode [simp]:
  "begin_erase_chip H (in_mode x y c s) = map_prod id (in_mode x y c) (begin_erase_chip H s)"
  by (simp add: begin_erase_chip_def Let_def upd_mode)

lemma begin_read_mode [simp]:
  "begin_read H (in_mode x y c s) = map_prod id (in_mode x y c) (begin_read H s)"
  by (simp add: begin_read_def Let_def upd_mode)

lemma begin_fast_read_mode [simp]:
  "begin_fast_read H (in_mode x y c s) = map_prod id (in_mode x y c) (begin_fast_read H s)"
  by (simp add: begin_fast_read_def Let_def upd_mode)

lemma begin_write_reg_data_mode [simp]:
  "begin_write_reg_data H (in_mode x y c s) = map_prod id (in_mode x y c) (begin_write_reg_data H s)"
  by (simp add: begin_write_reg_data_def Let_def upd_mode)

lemma begin_async_mode [simp]:
  "spiflash_begin_async H (in_mode x y c s) = map_prod id (in_mode x y c) (spiflash_begin_async H s)"
  by (cases "op s") (simp_all add: spiflash_begin_async_def)

lemma finalize_mode [simp]:
  "spiflash_finalize (in_mode x y c s) = in_mode x y c (spiflash_finalize s)"
  by (simp add: spiflash_finalize_def upd_mode)

lemma end_handle_results_mode [simp]:
  "end_handle_results (in_mode x y c s) res = map_prod id (in_mode x y c) (end_handle_results s res)"
  by (cases "op s") (simp_all add: end_handle_results_def upd_mode)

lemma end_continue_mode [simp]:
  "end_continue H (in_mode x y c s) res = map_prod id (in_mode x y c) (end_continue H s res)"
  by (cases "end_handle_results s res") (simp add: end_continue_def)

lemma is_hwbusy_mode [simp]: "spiflash_is_hwbusy (in_mode x y c s) v = spiflash_is_hwbusy s v"
  by (simp add: spiflash_is_hwbusy_def)

lemma end_async_mode [simp]:
  "spiflash_end_async H (in_mode x y c s) res = map_prod id (in_mode x y c) (spiflash_end_async H s res)"
  by (simp add: spiflash_end_async_def Let_def upd_mode)

lemma in_mode_self: "in_mode (async s) (async_cb s) (cb_log s) s = s"
  by (simp add: in_mode_def)

lemma in_mode_in_mode [simp]: "in_mode x y c (in_mode x' y' c' s) = in_mode x y c s"
  by (simp add: in_mode_def)

lemma begin_async_keeps_mode:
  assumes "spiflash_begin_async H s = (r, t)"
  shows "async t = async s \<and> async_cb t = async_cb s \<and> cb_log t = cb_log s"
proof -
  have "spiflash_begin_async H (in_mode (async s) (async_cb s) (cb_log s) s)
      = (r, in_mode (async s) (async_cb s) (cb_log s) t)"
    using assms by (simp del: in_mode_self)
  then have "t = in_mode (async s) (async_cb s) (cb_log s) t"
    using assms by (simp add: in_mode_self)
  then show ?thesis
    by (metis fields_mode(14,15,16))
qed

lemma end_async_keeps_mode:
  assumes "spiflash_end_async H s e = (r, t)"
  shows "async t = async s \<and> async_cb t = async_cb s \<and> cb_log t = cb_log s"
proof -
  have "spiflash_end_async H (in_mode (async s) (async_cb s) (cb_log s) s) e
      = (r, in_mode (async s) (async_cb s) (cb_log s) t)"
    using assms by (simp del: in_mode_self)
  then have "t = in_mode (async s) (async_cb s) (cb_log s) t"
    using assms by (simp add: in_mode_self)
  then show ?thesis
    by (metis fields_mode(14,15,16))
qed

text \<open>One trigger in each mode, from the same result of the end handler.\<close>

lemma trigger_sync:
  assumes "async s = 0" and "spiflash_end_async H s e = (r, t)"
  shows "SPIFLASH_async_trigger H s e
    = (r, if r \<noteq> SPIFLASH_OK then t\<lparr>op := SPIFLASH_OP_IDLE\<rparr> else t)"
proof -
  have "async t = 0"
    using assms end_async_keeps_mode [OF assms(2)] by simp
  then show ?thesis
    using assms(2) by (simp add: SPIFLASH_async_trigger_def Let_def)
qed

lemma trigger_async:
  assumes "spiflash_end_async H s e = (r, t)"
  shows "SPIFLASH_async_trigger H (in_mode 1 True c s) e
    = (r, if r \<noteq> SPIFLASH_OK \<or> op t = SPIFLASH_OP_IDLE
          then in_mode 1 True (c @ [(op t, r)])
                 (if r \<noteq> SPIFLASH_OK then t\<lparr>op := SPIFLASH_OP_IDLE\<rparr> else t)
          else in_mode 1 True c t)"
  using assms
  by (simp add: SPIFLASH_async_trigger_def Let_def upd_mode)

lemma trigger_async_cb:
  assumes "spiflash_end_async H s e = (r, t)"
  shows "SPIFLASH_async_trigger H (in_mode 1 y c s) e
    = (r, if r \<noteq> SPIFLASH_OK \<or> op t = SPIFLASH_OP_IDLE
          then in_mode 1 y (if y then c @ [(op t, r)] else c)
                 (if r \<noteq> SPIFLASH_OK then t\<lparr>op := SPIFLASH_OP_IDLE\<rparr> else t)
          else in_mode 1 y c t)"
  using assms
  by (simp add: SPIFLASH_async_trigger_def Let_def upd_mode)

lemma begin_async_op: "op (snd (spiflash_begin_async H s)) = op s"
  by (cases "op s")
     (simp_all add: spiflash_begin_async_def begin_wren_def begin_write_addr_def
        begin_write_data_def begin_erase_block_def begin_write_sr_data_def begin_erase_chip_def
        begin_read_def begin_fast_read_def begin_write_reg_data_def hal_defs Let_def)

lemma begin_async_idle: "op s = SPIFLASH_OP_IDLE \<Longrightarrow> fst (spiflash_begin_async H s) \<noteq> SPIFLASH_OK"
  by (simp add: spiflash_begin_async_def SPIFLASH_OK_def SPIFLASH_ERR_BAD_STATE_def)

lemma loops_agree:
  assumes "async s = 0"
  shows "map_option (\<lambda>(r', a). (r', in_mode 0 False [] a, map snd (cb_log a)))
           (async_completions fuel H (r, in_mode 1 y c s))
         = map_option (\<lambda>(r', s'). (r', in_mode 0 False [] s',
               map snd c @ (if y \<and> r = SPIFLASH_OK \<and> op s \<noteq> SPIFLASH_OP_IDLE then [r'] else [])))
           (spiflash_exe_loop fuel H (r, s))"
  using assms
proof (induction fuel arbitrary: r s c)
  case 0
  then show ?case
    by (simp add: spiflash_exe_loop.simps async_completions.simps)
next
  case (Suc n)
  show ?case
  proof (cases "r = SPIFLASH_OK \<and> op s \<noteq> SPIFLASH_OP_IDLE")
    case False
    then show ?thesis
      by (auto simp add: spiflash_exe_loop.simps async_completions.simps)
  next
    case True
    then have r: "r = 0" by (simp add: SPIFLASH_OK_def)
    obtain r1 t where e: "spiflash_end_async H s 0 = (r1, t)"
      by (cases "spiflash_end_async H s 0")
    have at: "async t = 0"
      using end_async_keeps_mode [OF e] Suc.prems by simp
    show ?thesis
    proof (cases "r1 \<noteq> SPIFLASH_OK \<or> op t = SPIFLASH_OP_IDLE")
      case stop: True
      define t2 where "t2 = (if r1 \<noteq> SPIFLASH_OK then t\<lparr>op := SPIFLASH_OP_IDLE\<rparr> else t)"
      have fin: "\<not> (r1 = SPIFLASH_OK \<and> op t2 \<noteq> SPIFLASH_OP_IDLE)"
        using stop by (auto simp add: t2_def)
      have sy: "spiflash_exe_loop (Suc n) H (r, s) = Some (r1, t2)"
        using True trigger_sync [OF Suc.prems e] fin
        by (simp add: spiflash_exe_loop.simps [of "Suc n"] spiflash_exe_loop.simps [of n] r t2_def)
      have as: "async_completions (Suc n) H (r, in_mode 1 y c s)
          = Some (r1, in_mode 1 y (if y then c @ [(op t, r1)] else c) t2)"
        using True trigger_async_cb [OF e, of y c] stop fin
        by (simp add: async_completions.simps [of "Suc n"] async_completions.simps [of n] t2_def)
      show ?thesis
        unfolding sy as using True by simp
    next
      case go: False
      have sy: "spiflash_exe_loop (Suc n) H (r, s) = spiflash_exe_loop n H (r1, t)"
        using True trigger_sync [OF Suc.prems e] go
        by (simp add: spiflash_exe_loop.simps [of "Suc n"] r)
      have as: "async_completions (Suc n) H (r, in_mode 1 y c s)
          = async_completions n H (r1, in_mode 1 y c t)"
        using True trigger_async_cb [OF e, of y c] go
        by (simp add: async_completions.simps [of "Suc n"])
      show ?thesis
        unfolding sy as using Suc.IH [OF at, of r1 c] go True by simp
    qed
  qed
qed

lemma agree_reject:
  "e \<noteq> SPIFLASH_OK \<Longrightarrow> agree fuel H y c (Some (e, in_mode 1 y c s)) (Some (e, s))"
  by (simp add: agree_def async_completions.simps)

lemma agree_exe:
  assumes "async s = 0"
  shows "agree fuel H y c (spiflash_exe fuel H (in_mode 1 y c s)) (spiflash_exe fuel H s)"
proof -
  define s1 where "s1 = (if could_be_busy s \<noteq> 0 then s\<lparr>busy_pre_check := 1\<rparr> else s)"
  obtain r0 t0 where b: "spiflash_begin_async H s1 = (r0, t0)"
    by (cases "spiflash_begin_async H s1")
  have a1: "async s1 = 0" using assms by (simp add: s1_def)
  have at0: "async t0 = 0" using begin_async_keeps_mode [OF b] a1 by simp
  have started: "r0 = SPIFLASH_OK \<longrightarrow> op t0 \<noteq> SPIFLASH_OP_IDLE"
    using begin_async_op [of H s1] begin_async_idle [of s1 H] b by auto
  have ax: "spiflash_exe fuel H (in_mode 1 y c s) = Some (r0, in_mode 1 y c t0)"
    using b by (cases "could_be_busy s = 0") (simp_all add: spiflash_exe_def Let_def upd_mode s1_def)
  have sx: "spiflash_exe fuel H s
      = map_option (\<lambda>(r, t). (r, spiflash_finalize t)) (spiflash_exe_loop fuel H (r0, t0))"
    using b assms
    by (cases "could_be_busy s = 0")
       (simp_all add: spiflash_exe_def Let_def s1_def map_option_case split: option.split)
  have "map_option (\<lambda>(r', m, cs). (r', hal_log m, cs))
          (map_option (\<lambda>(r', a). (r', in_mode 0 False [] a, map snd (cb_log a)))
             (async_completions fuel H (r0, in_mode 1 y c t0)))
      = map_option (\<lambda>(r', m, cs). (r', hal_log m, cs))
          (map_option (\<lambda>(r', s'). (r', in_mode 0 False [] s',
               map snd c @ (if y \<and> r0 = SPIFLASH_OK \<and> op t0 \<noteq> SPIFLASH_OP_IDLE then [r'] else [])))
             (spiflash_exe_loop fuel H (r0, t0)))"
    by (simp only: loops_agree [OF at0])
  moreover have "(y \<and> r0 = SPIFLASH_OK \<and> op t0 \<noteq> SPIFLASH_OP_IDLE) = (y \<and> r0 = SPIFLASH_OK)"
    using started by auto
  ultimately show ?thesis
    by (simp add: agree_def ax sx option.map_comp comp_def case_prod_unfold
        spiflash_finalize_def cong: if_cong)
qed

lemma request_agree:
  assumes "async s = 0"
  shows "agree fuel H y c (SPIFLASH_request fuel H (in_mode 1 y c s) req)
           (SPIFLASH_request fuel H s req)"
proof -
  have busy: "SPIFLASH_ERR_BUSY \<noteq> SPIFLASH_OK" "SPIFLASH_ERR_ERASE_UNALIGNED \<noteq> SPIFLASH_OK"
    by (simp_all add: err_defs)
  note rej = agree_reject [OF busy(1)] agree_reject [OF busy(2)]
  have exe: "agree fuel H y c (spiflash_exe fuel H (in_mode 1 y c t)) (spiflash_exe fuel H t)"
    if "async t = 0" for t
    using that by (rule agree_exe)
  show ?thesis
  proof (cases req)
    case (Req_write a l buf)
    then show ?thesis using assms by (simp add: SPIFLASH_write_def rej upd_mode exe)
  next
    case (Req_read a l buf)
    then show ?thesis using assms by (simp add: SPIFLASH_read_def rej upd_mode exe)
  next
    case (Req_fast_read a l buf)
    then show ?thesis using assms by (simp add: SPIFLASH_fast_read_def rej upd_mode exe)
  next
    case (Req_erase a l)
    then show ?thesis using assms by (simp add: SPIFLASH_erase_def rej upd_mode exe)
  next
    case Req_chip_erase
    then show ?thesis using assms by (simp add: SPIFLASH_chip_erase_def rej upd_mode exe)
  next
    case (Req_write_sr sr)
    then show ?thesis using assms by (simp add: SPIFLASH_write_sr_def rej upd_mode exe)
  next
    case (Req_read_sr dst)
    then show ?thesis using assms by (simp add: SPIFLASH_read_sr_def rej upd_mode exe)
  next
    case (Req_read_sr_busy dst)
    then show ?thesis using assms by (simp add: SPIFLASH_read_sr_busy_def rej upd_mode exe)
  next
    case (Req_read_jedec_id dst)
    then show ?thesis using assms by (simp add: SPIFLASH_read_jedec_id_def rej upd_mode exe)
  next
    case (Req_read_product_id dst)
    then show ?thesis using assms by (simp add: SPIFLASH_read_product_id_def rej upd_mode exe)
  next
    case (Req_read_reg reg dst)
    then show ?thesis using assms by (simp add: SPIFLASH_read_reg_def rej upd_mode exe)
  next
    case (Req_write_reg reg dat write_en wait_ms)
    then show ?thesis using assms
      by (simp add: SPIFLASH_write_reg_def rej upd_mode exe Let_def)
  qed
qed

text \<open>
  C8, as the code has it. For every request, transport, starting state and fuel, the
  asynchronous run with immediate completions and the blocking call end alike (both
  return, or both run out of fuel), with the same result code and the same sequence of
  HAL calls. With a callback set, the asynchronous run calls it exactly once, with that
  result code, when the entry point itself returned \<open>SPIFLASH_OK\<close>; when the entry point
  returned an error (driver busy, erase unaligned, or a failure of the first transfer)
  that return value is the result and the callback is not called.
\<close>

theorem sync_async_equivalent:
  "observed (async_run fuel H s req) = observed (sync_run fuel H s req) \<and>
   (async_cb s \<longrightarrow>
     (\<forall>r0 t0 r t.
        SPIFLASH_request fuel H (s\<lparr>async := 1\<rparr>) req = Some (r0, t0) \<longrightarrow>
        async_run fuel H s req = Some (r, t) \<longrightarrow>
        map snd (cb_log t) = map snd (cb_log s) @ (if r0 = SPIFLASH_OK then [r] else [])))"
proof -
  let ?ss = "s\<lparr>async := 0\<rparr>"
  have sa: "s\<lparr>async := 1\<rparr> = in_mode 1 (async_cb s) (cb_log s) ?ss"
    by (simp add: in_mode_def)
  have ag: "agree fuel H (async_cb s) (cb_log s)
      (SPIFLASH_request fuel H (s\<lparr>async := 1\<rparr>) req) (sync_run fuel H s req)"
    unfolding sa sync_run_def by (rule request_agree) simp
  have ar: "async_run fuel H s req
      = (case SPIFLASH_request fuel H (s\<lparr>async := 1\<rparr>) req of
           None \<Rightarrow> None | Some x \<Rightarrow> async_completions fuel H x)"
    by (simp add: async_run_def)
  from ag have eq: "map_option (\<lambda>(r', a). (r', hal_log a, map snd (cb_log a)))
       (async_run fuel H s req)
     = map_option (\<lambda>(r', s'). (r', hal_log s',
           map snd (cb_log s) @
             (if async_cb s \<and> map_option fst (SPIFLASH_request fuel H (s\<lparr>async := 1\<rparr>) req)
                  = Some SPIFLASH_OK then [r'] else [])))
       (sync_run fuel H s req)"
    by (simp only: agree_def ar)
  have one: "observed (async_run fuel H s req) = observed (sync_run fuel H s req)"
  proof -
    have "map_option (\<lambda>(r, l, cs). (r, l)) (map_option (\<lambda>(r', a). (r', hal_log a, map snd (cb_log a)))
       (async_run fuel H s req))
      = map_option (\<lambda>(r, l, cs). (r, l)) (map_option (\<lambda>(r', s'). (r', hal_log s',
           map snd (cb_log s) @
             (if async_cb s \<and> map_option fst (SPIFLASH_request fuel H (s\<lparr>async := 1\<rparr>) req)
                  = Some SPIFLASH_OK then [r'] else [])))
       (sync_run fuel H s req))"
      by (simp only: eq)
    then show ?thesis
      by (simp add: observed_def option.map_comp comp_def case_prod_unfold)
  qed
  have two: "map snd (cb_log t) = map snd (cb_log s) @ (if r0 = SPIFLASH_OK then [r] else [])"
    if cb: "async_cb s" and rq: "SPIFLASH_request fuel H (s\<lparr>async := 1\<rparr>) req = Some (r0, t0)"
      and run: "async_run fuel H s req = Some (r, t)" for r0 t0 r t
  proof -
    from eq run obtain t' where sy: "sync_run fuel H s req = Some (r, t')"
      by (cases "sync_run fuel H s req") auto
    from eq show ?thesis
      by (simp add: run sy rq cb)
  qed
  from one two show ?thesis by blast
qed

text \<open>A write over a page boundary on a chip that is busy for two status reads.\<close>

theorem sync_async_equivalent_witness:
  "async_cb spi_with_cb \<and>
   map_option fst (SPIFLASH_request 30 hal_busy_twice (spi_with_cb\<lparr>async := 1\<rparr>)
      (Req_write 0xFE 6 [1, 2, 3, 4, 5, 6])) = Some SPIFLASH_OK \<and>
   map_option (\<lambda>(res, s). (res, map snd (cb_log s)))
     (async_run 30 hal_busy_twice spi_with_cb (Req_write 0xFE 6 [1, 2, 3, 4, 5, 6]))
     = Some (SPIFLASH_OK, [SPIFLASH_OK]) \<and>
   observed (async_run 30 hal_busy_twice spi_with_cb (Req_write 0xFE 6 [1, 2, 3, 4, 5, 6]))
     = observed (sync_run 30 hal_busy_twice spi_with_cb (Req_write 0xFE 6 [1, 2, 3, 4, 5, 6])) \<and>
   map_option fst (sync_run 30 hal_busy_twice spi_with_cb (Req_write 0xFE 6 [1, 2, 3, 4, 5, 6]))
     = Some SPIFLASH_OK"
proof -
  let ?req = "Req_write 0xFE 6 [1, 2, 3, 4, 5, 6]"
  define t0 where "t0 = snd (the (SPIFLASH_request 30 hal_busy_twice (spi_with_cb\<lparr>async := 1\<rparr>) ?req))"
  define t where "t = snd (the (async_run 30 hal_busy_twice spi_with_cb ?req))"
  have cb: "async_cb spi_with_cb"
    by (simp add: spi_with_cb_def)
  have rq: "SPIFLASH_request 30 hal_busy_twice (spi_with_cb\<lparr>async := 1\<rparr>) ?req
      = Some (SPIFLASH_OK, t0)"
    unfolding t0_def by code_simp
  have run: "async_run 30 hal_busy_twice spi_with_cb ?req = Some (SPIFLASH_OK, t)"
    unfolding t_def by code_simp
  have c0: "cb_log spi_with_cb = []"
    by (simp add: spi_with_cb_def spi_typical_def SPIFLASH_init_def)
  have sy: "map_option fst (sync_run 30 hal_busy_twice spi_with_cb ?req) = Some SPIFLASH_OK"
    by code_simp
  from sync_async_equivalent [of 30 hal_busy_twice spi_with_cb ?req] cb rq run
  have "observed (async_run 30 hal_busy_twice spi_with_cb ?req)
      = observed (sync_run 30 hal_busy_twice spi_with_cb ?req)"
    and "map snd (cb_log t) = map snd (cb_log spi_with_cb) @ [SPIFLASH_OK]"
    by auto
  then show ?thesis
    using cb rq run c0 sy by simp
qed

text \<open>
  C8 as stated fails for a request that is rejected at entry: the blocking erase of one
  byte returns \<open>SPIFLASH_ERR_ERASE_UNALIGNED\<close>, the asynchronous one returns it from the
  entry point as well, and no callback carries a result code.
\<close>

theorem sync_async_result_counterexample:
  "async_cb spi_with_cb \<and>
   map_option fst (sync_run 10 hal_ready spi_with_cb (Req_erase 0 1))
     = Some SPIFLASH_ERR_ERASE_UNALIGNED \<and>
   map_option (\<lambda>(res, s). (res, cb_log s))
     (async_run 10 hal_ready spi_with_cb (Req_erase 0 1))
     = Some (SPIFLASH_ERR_ERASE_UNALIGNED, [])"
  by code_simp

section \<open>Page program to completion\<close>

text \<open>
  On a cooperating transport every turn of a write succeeds and lowers the budget, so
  the loop ends, with the operation idle, within the budget.
\<close>

lemma pss_snoc:
  "polls_since_send c (h @ [e]) =
     (if sends_only e then 0
      else if e = sr_poll c then Suc (polls_since_send c h) else polls_since_send c h)"
  by (simp add: polls_since_send_def)

lemma pss_simps [simp]:
  "polls_since_send c (h @ [HAL_cs b]) = polls_since_send c h"
  "polls_since_send c (h @ [HAL_wait ms]) = polls_since_send c h"
  "polls_since_send c (h @ [HAL_txrx tx n 0]) = 0"
  "polls_since_send c (h @ [sr_poll c]) = Suc (polls_since_send c h)"
  by (simp_all add: pss_snoc sr_poll_def)

lemma pss_two [simp]:
  "polls_since_send c (h @ [e, HAL_cs b]) = polls_since_send c (h @ [e])"
  "polls_since_send c (h @ [e, HAL_wait ms]) = polls_since_send c (h @ [e])"
  "polls_since_send c (h @ [e, HAL_txrx tx n 0]) = 0"
  "polls_since_send c (h @ [e, sr_poll c]) = Suc (polls_since_send c (h @ [e]))"
  using pss_simps [of c "h @ [e]"] by simp_all

lemma wait_budget_bounds: "1 \<le> wait_budget N s \<and> wait_budget N s \<le> 2 * N + 4"
proof -
  have "2 * (N - p) \<le> 2 * N" for p :: nat
    by simp
  then show ?thesis
    by (auto simp add: wait_budget_def intro: le_SucI)
qed

lemma wait_budget_fields:
  assumes "busy_check_wait t = busy_check_wait s" "cmd_tbl t = cmd_tbl s"
    "polls_since_send (cmd_tbl s) (hal_log t) = polls_since_send (cmd_tbl s) (hal_log s)"
    "sr_data t = sr_data s"
  shows "wait_budget N t = wait_budget N s"
  using assms by (simp add: wait_budget_def cong: if_cong)

lemma wr_sz_of_fields:
  "cfg t = cfg s \<Longrightarrow> addr t = addr s \<Longrightarrow> wr_len t = wr_len s \<Longrightarrow> wr_sz_of t = wr_sz_of s"
  by (simp add: wr_sz_of_def cong: if_cong)

lemma write_phases_fields:
  assumes "op t = op s" "cfg t = cfg s" "addr t = addr s" "wr_len t = wr_len s"
  shows "write_phases k t = write_phases k s"
  using assms wr_sz_of_fields [OF assms(2-4)] by (simp add: write_phases_def cong: if_cong)

lemma write_budget_cb [simp]: "write_budget N k (t\<lparr>cb_log := c\<rparr>) = write_budget N k t"
proof -
  have "wait_budget N (t\<lparr>cb_log := c\<rparr>) = wait_budget N t"
    by (rule wait_budget_fields) (simp_all add: sr_data_def)
  moreover have "write_phases k (t\<lparr>cb_log := c\<rparr>) = write_phases k t"
    by (rule write_phases_fields) simp_all
  ultimately show ?thesis
    by (simp add: write_budget_def)
qed

lemma trigger_of_end:
  assumes "spiflash_end_async H t e = (0, u)"
  shows "\<exists>c. SPIFLASH_async_trigger H t e = (0, u\<lparr>cb_log := c\<rparr>)"
proof (cases "op u = SPIFLASH_OP_IDLE \<and> async u \<noteq> 0 \<and> async_cb u")
  case True
  then have "SPIFLASH_async_trigger H t e = (0, u\<lparr>cb_log := cb_log u @ [(op u, 0)]\<rparr>)"
    using assms by (simp add: SPIFLASH_async_trigger_def Let_def SPIFLASH_OK_def)
  then show ?thesis ..
next
  case False
  then have "SPIFLASH_async_trigger H t e = (0, u\<lparr>cb_log := cb_log u\<rparr>)"
    using assms by (auto simp add: SPIFLASH_async_trigger_def Let_def SPIFLASH_OK_def)
  then show ?thesis ..
qed

lemma idle_wait_budget:
  assumes "busy_check_wait u \<noteq> BCW_WAIT" "busy_check_wait u \<noteq> BCW_READ_SR"
    "busy_check_wait u \<noteq> BCW_CHECK"
  shows "wait_budget N u = 1"
  using assms by (simp add: wait_budget_def)

lemma live_continue:
  assumes ok: "\<And>h tx n m. fst (H h tx n m) = 0"
    and inv: "write_inv s0 u" and bpc: "busy_pre_check u = 0"
    and P: "page_sz (cfg s0) = 2 ^ k" "k < 32"
    and nidle: "op u \<noteq> SPIFLASH_OP_IDLE"
    and bcw: "busy_check_wait u \<noteq> BCW_WAIT" "busy_check_wait u \<noteq> BCW_READ_SR"
      "busy_check_wait u \<noteq> BCW_CHECK"
  shows "\<exists>u'. end_continue H u 0 = (0, u') \<and> busy_pre_check u' = 0 \<and>
     write_budget N k u' < (2 * N + 4) * write_phases k u + 1"
proof -
  have sc: "same_chip s0 u" using inv by (simp add: write_inv_def)
  then have c: "cfg u = cfg s0" "cmd_tbl u = cmd_tbl s0"
    "addr_frame_len s0 \<le> length (tx_internal_buf u)"
    by (simp_all add: same_chip_def)
  have Pu: "page_sz (cfg u) = 2 ^ k" using c P by simp
  have fl: "addr_frame_len u \<le> length (tx_internal_buf u)"
    using c by (simp add: addr_frame_len_def)
  define ca where "ca = length (page_chunks (2 ^ k) (unat (addr u + wr_sz_of u))
      (unat (wr_len u - wr_sz_of u)))"
  consider (wren) "op u = SPIFLASH_OP_WRITE_sWREN" | (addr) "op u = SPIFLASH_OP_WRITE_sADDR"
    | (data) "op u = SPIFLASH_OP_WRITE_sDATA"
    using inv nidle by (auto simp add: write_inv_def)
  then show ?thesis
  proof cases
    case wren
    define v where "v = u\<lparr>hal_log := hal_log u @ [HAL_cs False], op := SPIFLASH_OP_WRITE_sADDR\<rparr>"
    define u' where "u' = v\<lparr>tx_internal_buf :=
          page_program (cmd_tbl v) # address_bytes v (addr v) @ scratch_tail v,
        hal_log := hal_log v @ [HAL_cs True, HAL_txrx (pp_frame v (addr v)) (addr_frame_len v) 0]\<rparr>"
    have flv: "addr_frame_len v \<le> length (tx_internal_buf v)"
      using fl by (simp add: v_def addr_frame_len_def)
    have "end_continue H u 0 = begin_write_addr H v"
      using wren bpc
      by (simp add: end_continue_def end_handle_results_def spiflash_begin_async_def hal_defs
          SPIFLASH_OK_def v_def)
    then have e: "end_continue H u 0 = (0, u')"
      by (simp add: begin_write_addr_eq [OF flv] ok u'_def)
    have f: "op u' = SPIFLASH_OP_WRITE_sADDR" "busy_pre_check u' = 0"
      "busy_check_wait u' = busy_check_wait u" "cfg u' = cfg u" "addr u' = addr u"
      "wr_len u' = wr_len u"
      using bpc by (simp_all add: u'_def v_def)
    have w: "wr_sz_of u' = wr_sz_of u"
      by (rule wr_sz_of_fields) (simp_all add: f)
    have ph: "write_phases k u = 3 * ca + 2" "write_phases k u' = 3 * ca + 1"
      using wren f w by (simp_all add: write_phases_def ca_def)
    have wb: "wait_budget N u' = 1"
      by (rule idle_wait_budget) (simp_all add: f bcw)
    have "write_budget N k u' < (2 * N + 4) * write_phases k u + 1"
      using f(1,2) by (simp add: write_budget_def ph wb algebra_simps)
    with e f(2) show ?thesis by blast
  next
    case addr
    then have nz: "wr_len u \<noteq> 0" using inv by (simp add: write_inv_def)
    define v where "v = u\<lparr>op := SPIFLASH_OP_WRITE_sDATA\<rparr>"
    define u' where "u' = v\<lparr>wr_buf := drop (unat (wr_sz_of u)) (wr_buf u),
        wr_len := wr_len u - wr_sz_of u,
        addr := addr u + wr_sz_of u,
        wait_period_ms := page_program_ms (cfg u),
        busy_check_wait := BCW_WAIT,
        hal_log := hal_log u @ [HAL_txrx (take (unat (wr_sz_of u)) (wr_buf u)) (unat (wr_sz_of u)) 0]\<rparr>"
    have wv: "wr_sz_of v = wr_sz_of u"
      by (rule wr_sz_of_fields) (simp_all add: v_def)
    have "end_continue H u 0 = begin_write_data H v"
      using addr bpc
      by (simp add: end_continue_def end_handle_results_def spiflash_begin_async_def hal_defs
          SPIFLASH_OK_def v_def)
    then have e: "end_continue H u 0 = (0, u')"
      by (simp add: begin_write_data_eq ok wv u'_def) (simp add: v_def)
    have f: "op u' = SPIFLASH_OP_WRITE_sDATA" "busy_pre_check u' = 0"
      "busy_check_wait u' = BCW_WAIT" "addr u' = addr u + wr_sz_of u"
      "wr_len u' = wr_len u - wr_sz_of u"
      using bpc by (simp_all add: u'_def v_def)
    have ph: "write_phases k u = 3 * ca + 1" "write_phases k u' = 3 * ca"
      using addr f by (simp_all add: write_phases_def ca_def)
    have wb: "wait_budget N u' = 2 * N + 4"
      using f(3) by (simp add: wait_budget_def)
    have "write_budget N k u' < (2 * N + 4) * write_phases k u + 1"
      using f(1,2) by (simp add: write_budget_def ph wb algebra_simps)
    with e f(2) show ?thesis by blast
  next
    case data
    show ?thesis
    proof (cases "wr_len u = 0")
      case True
      define u' where "u' = spiflash_finalize (hal_cs False (u\<lparr>op := SPIFLASH_OP_IDLE\<rparr>))"
      have e: "end_continue H u 0 = (0, u')"
        using data True
        by (simp add: end_continue_def end_handle_results_def SPIFLASH_OK_def u'_def)
      have f: "op u' = SPIFLASH_OP_IDLE" "busy_pre_check u' = 0"
        by (simp_all add: u'_def spiflash_finalize_def hal_defs)
      have "write_budget N k u' < (2 * N + 4) * write_phases k u + 1"
        using f by (simp add: write_budget_def)
      with e f(2) show ?thesis by blast
    next
      case False
      define v where "v = u\<lparr>op := SPIFLASH_OP_WRITE_sWREN\<rparr>"
      define u' where "u' = v\<lparr>hal_log := hal_log v @
          [HAL_cs True, HAL_txrx [write_enable (cmd_tbl v)] 1 0]\<rparr>"
      have "end_continue H u 0 = begin_wren H v"
        using data False bpc
        by (simp add: end_continue_def end_handle_results_def spiflash_begin_async_def
            SPIFLASH_OK_def v_def)
      then have e: "end_continue H u 0 = (0, u')"
        by (simp add: begin_wren_eq ok u'_def)
      have f: "op u' = SPIFLASH_OP_WRITE_sWREN" "busy_pre_check u' = 0"
        "busy_check_wait u' = busy_check_wait u" "cfg u' = cfg u" "addr u' = addr u"
        "wr_len u' = wr_len u"
        using bpc by (simp_all add: u'_def v_def)
      have w: "wr_sz_of u' = wr_sz_of u"
        by (rule wr_sz_of_fields) (simp_all add: f)
      have "length (page_chunks (2 ^ k) (unat (addr u)) (unat (wr_len u))) = Suc ca"
        by (simp add: page_chunks_advance [OF Pu P(2) False] ca_def)
      then have ph: "write_phases k u = 3 * Suc ca" "write_phases k u' = 3 * ca + 2"
        using data f w by (simp_all add: write_phases_def ca_def)
      have wb: "wait_budget N u' = 1"
        by (rule idle_wait_budget) (simp_all add: f bcw)
      have "write_budget N k u' < (2 * N + 4) * write_phases k u + 1"
        using f(1,2) by (simp add: write_budget_def ph wb algebra_simps)
      with e f(2) show ?thesis by blast
    qed
  qed
qed

lemma live_step:
  assumes ok: "\<And>h tx n m. fst (H h tx n m) = 0"
    and rdy: "\<And>h. \<exists>v. sr_report H (cmd_tbl s0) h = Some v \<and>
        (N \<le> polls_since_send (cmd_tbl s0) h \<longrightarrow> v AND sr_busy_bit (cmd_tbl s0) = 0)"
    and inv: "write_inv s0 t"
    and pre: "busy_pre_check t \<noteq> 0 \<Longrightarrow> sr_data t AND sr_busy_bit (cmd_tbl s0) = 0"
    and P: "page_sz (cfg s0) = 2 ^ k" "k < 32"
    and nidle: "op t \<noteq> SPIFLASH_OP_IDLE"
  shows "\<exists>t'. SPIFLASH_async_trigger H t 0 = (0, t') \<and> busy_pre_check t' = 0 \<and>
     write_budget N k t' < write_budget N k t"
proof -
  have sc: "same_chip s0 t" using inv by (simp add: write_inv_def)
  then have c: "cfg t = cfg s0" "cmd_tbl t = cmd_tbl s0"
    by (simp_all add: same_chip_def)
  let ?p = "polls_since_send (cmd_tbl t) (hal_log t)"
  show ?thesis
  proof (cases "busy_pre_check t \<noteq> 0")
    case True
    then have opw: "op t = SPIFLASH_OP_WRITE_sWREN"
      using inv by (simp add: write_inv_def)
    define u where "u = t\<lparr>busy_pre_check := 0,
        hal_log := hal_log t @ [HAL_cs True, HAL_txrx [write_enable (cmd_tbl t)] 1 0]\<rparr>"
    have nb: "spiflash_is_hwbusy t (sr_data t) = 0"
      using pre [OF True] c(2) by (simp add: spiflash_is_hwbusy_def)
    have "spiflash_end_async H t 0 = begin_wren H (t\<lparr>busy_pre_check := 0\<rparr>)"
      using end_async_precheck [OF True, of H] nb opw
      by (simp add: spiflash_begin_async_def)
    then have e: "spiflash_end_async H t 0 = (0, u)"
      by (simp add: begin_wren_eq ok u_def)
    from trigger_of_end [OF e] obtain cl
      where tr: "SPIFLASH_async_trigger H t 0 = (0, u\<lparr>cb_log := cl\<rparr>)" ..
    have ph: "write_phases k u = write_phases k t"
      by (rule write_phases_fields) (simp_all add: u_def)
    have wb: "wait_budget N u \<le> 2 * N + 4"
      using wait_budget_bounds [of N u] by simp
    have "write_budget N k u < write_budget N k t"
      using True opw wb by (simp add: write_budget_def ph) (simp add: u_def)
    then show ?thesis
      using tr by (simp add: u_def)
  next
    case False
    then have bpc0: "busy_pre_check t = 0" by simp
    have base: "write_budget N k t = (2 * N + 4) * write_phases k t + wait_budget N t"
      using nidle bpc0 by (simp add: write_budget_def)
    have lower: "write_budget N k u < write_budget N k t"
      if "op u = op t" "busy_pre_check u = 0" "write_phases k u = write_phases k t"
        "wait_budget N u < wait_budget N t" for u
      using that nidle by (simp add: base write_budget_def)
    consider (wait) "busy_check_wait t = BCW_WAIT" | (rd) "busy_check_wait t = BCW_READ_SR"
      | (chk) "busy_check_wait t = BCW_CHECK"
      | (idle) "busy_check_wait t \<noteq> BCW_WAIT" "busy_check_wait t \<noteq> BCW_READ_SR"
          "busy_check_wait t \<noteq> BCW_CHECK"
      by blast
    then show ?thesis
    proof cases
      case wait
      define u where "u = t\<lparr>busy_check_wait :=
            (if wait_period_ms t = 0 then BCW_IDLE else BCW_READ_SR),
          hal_log := hal_log t @ [HAL_cs False, HAL_wait (wait_period_ms t)]\<rparr>"
      have tr: "SPIFLASH_async_trigger H t 0 = (0, u)"
        using trigger_bcw_wait [OF bpc0 wait nidle, of H] by (simp add: u_def)
      have ph: "write_phases k u = write_phases k t"
        by (rule write_phases_fields) (simp_all add: u_def)
      have "2 * (N - p) + 3 < 2 * N + 4" for p :: nat
        by simp
      then have "wait_budget N u < 2 * N + 4"
        by (simp add: wait_budget_def u_def bcw_defs)
      then have wb: "wait_budget N u < wait_budget N t"
        using wait by (simp add: wait_budget_def)
      have "write_budget N k u < write_budget N k t"
        by (rule lower [OF _ _ ph wb]) (simp_all add: u_def bpc0)
      then show ?thesis
        using tr bpc0 by (simp add: u_def)
    next
      case rd
      from rdy [of "hal_log t @ [HAL_cs True]"] obtain v
        where v: "sr_report H (cmd_tbl t) (hal_log t @ [HAL_cs True]) = Some v"
          and vr: "N \<le> ?p \<longrightarrow> v AND sr_busy_bit (cmd_tbl t) = 0"
        using c(2) by auto
      define u where "u = t\<lparr>busy_check_wait := BCW_CHECK,
          tx_internal_buf := v # drop 1 (tx_internal_buf t),
          hal_log := hal_log t @ [HAL_cs True, sr_poll (cmd_tbl t)]\<rparr>"
      have tr: "SPIFLASH_async_trigger H t 0 = (0, u)"
        using poll_step [OF bpc0 rd nidle v] by (simp add: u_def)
      have ph: "write_phases k u = write_phases k t"
        by (rule write_phases_fields) (simp_all add: u_def)
      have f: "busy_check_wait u = BCW_CHECK" "sr_data u = v" "cmd_tbl u = cmd_tbl t"
        "polls_since_send (cmd_tbl t) (hal_log u) = Suc ?p"
        by (simp_all add: u_def sr_data_def)
      have wt: "wait_budget N t = 2 * (N - ?p) + 3"
        using rd by (simp add: wait_budget_def bcw_defs)
      have wu: "wait_budget N u =
          (if v AND sr_busy_bit (cmd_tbl t) \<noteq> 0 then 2 * (N - Suc ?p) + 4 else 1)"
        by (simp add: wait_budget_def f bcw_defs)
      have wb: "wait_budget N u < wait_budget N t"
        using vr by (auto simp add: wt wu)
      have "write_budget N k u < write_budget N k t"
        by (rule lower [OF _ _ ph wb]) (simp_all add: u_def bpc0)
      then show ?thesis
        using tr bpc0 by (simp add: u_def)
    next
      case chk
      show ?thesis
      proof (cases "sr_data t AND sr_busy_bit (cmd_tbl t) \<noteq> 0")
        case True
        define u where "u = t\<lparr>wait_period_ms := DECR_WAIT (wait_period_ms t),
            busy_check_wait := BCW_READ_SR,
            hal_log := hal_log t @ [HAL_cs False, HAL_wait (DECR_WAIT (wait_period_ms t))]\<rparr>"
        have tr: "SPIFLASH_async_trigger H t 0 = (0, u)"
          using trigger_bcw_check_busy [OF bpc0 chk nidle True, of H] by (simp add: u_def)
        have ph: "write_phases k u = write_phases k t"
          by (rule write_phases_fields) (simp_all add: u_def)
        have wt: "wait_budget N t = 2 * (N - ?p) + 4"
          using chk True by (simp add: wait_budget_def bcw_defs)
        have wu: "wait_budget N u = 2 * (N - ?p) + 3"
          by (simp add: wait_budget_def u_def bcw_defs)
        have wb: "wait_budget N u < wait_budget N t"
          by (simp add: wt wu)
        have "write_budget N k u < write_budget N k t"
          by (rule lower [OF _ _ ph wb]) (simp_all add: u_def bpc0)
        then show ?thesis
          using tr bpc0 by (simp add: u_def)
      next
        case False
        define u0 where "u0 = t\<lparr>hal_log := hal_log t @ [HAL_cs False], busy_check_wait := BCW_IDLE\<rparr>"
        have ec: "spiflash_end_async H t 0 = end_continue H u0 0"
          using end_async_check [OF bpc0 chk, of H] False by (simp add: u0_def)
        have iu: "write_inv s0 u0"
          by (rule write_inv_fields [OF inv]) (simp_all add: u0_def scratch_tail_def)
        have fu: "busy_pre_check u0 = 0" "op u0 \<noteq> SPIFLASH_OP_IDLE"
          "busy_check_wait u0 \<noteq> BCW_WAIT" "busy_check_wait u0 \<noteq> BCW_READ_SR"
          "busy_check_wait u0 \<noteq> BCW_CHECK"
          using bpc0 nidle by (simp_all add: u0_def bcw_defs)
        from live_continue [where H = H and N = N, OF ok iu fu(1) P fu(2-5)] obtain u'
          where e: "end_continue H u0 0 = (0, u')" and b': "busy_pre_check u' = 0"
            and lt: "write_budget N k u' < (2 * N + 4) * write_phases k u0 + 1"
          by blast
        have ph: "write_phases k u0 = write_phases k t"
          by (rule write_phases_fields) (simp_all add: u0_def)
        have wt: "wait_budget N t = 1"
          using chk False by (simp add: wait_budget_def bcw_defs)
        from trigger_of_end [of H t 0 u'] ec e obtain cl
          where tr: "SPIFLASH_async_trigger H t 0 = (0, u'\<lparr>cb_log := cl\<rparr>)"
          by auto
        show ?thesis
          using tr b' lt by (simp add: base ph wt)
      qed
    next
      case idle
      have ec: "spiflash_end_async H t 0 = end_continue H t 0"
        by (rule end_async_idle [OF bpc0 idle])
      from live_continue [where H = H and N = N, OF ok inv bpc0 P nidle idle] obtain u'
        where e: "end_continue H t 0 = (0, u')" and b': "busy_pre_check u' = 0"
          and lt: "write_budget N k u' < (2 * N + 4) * write_phases k t + 1"
        by blast
      have wt: "wait_budget N t = 1"
        by (rule idle_wait_budget [OF idle])
      from trigger_of_end [of H t 0 u'] ec e obtain cl
        where tr: "SPIFLASH_async_trigger H t 0 = (0, u'\<lparr>cb_log := cl\<rparr>)"
        by auto
      show ?thesis
        using tr b' lt by (simp add: base wt)
    qed
  qed
qed

lemma live_loop:
  assumes ok: "\<And>h tx n m. fst (H h tx n m) = 0"
    and rdy: "\<And>h. \<exists>v. sr_report H (cmd_tbl s0) h = Some v \<and>
        (N \<le> polls_since_send (cmd_tbl s0) h \<longrightarrow> v AND sr_busy_bit (cmd_tbl s0) = 0)"
    and P: "page_sz (cfg s0) = 2 ^ k" "k < 32"
    and inv: "write_inv s0 t"
    and pre: "busy_pre_check t \<noteq> 0 \<Longrightarrow> sr_data t AND sr_busy_bit (cmd_tbl s0) = 0"
    and fuel: "write_budget N k t \<le> fuel"
  shows "\<exists>t'. spiflash_exe_loop fuel H (0, t) = Some (0, t') \<and> op t' = SPIFLASH_OP_IDLE"
  using inv pre fuel
proof (induction fuel arbitrary: t)
  case 0
  have "op t = SPIFLASH_OP_IDLE"
  proof (rule ccontr)
    assume "op t \<noteq> SPIFLASH_OP_IDLE"
    then have "0 < write_budget N k t"
      using wait_budget_bounds [of N t] by (simp add: write_budget_def)
    with "0.prems"(3) show False by simp
  qed
  then show ?case
    by (simp add: spiflash_exe_loop.simps)
next
  case (Suc n)
  show ?case
  proof (cases "op t = SPIFLASH_OP_IDLE")
    case True
    then show ?thesis by (simp add: spiflash_exe_loop.simps)
  next
    case False
    from live_step [where H = H and N = N and ?s0.0 = s0, OF ok rdy Suc.prems(1) Suc.prems(2) P False] obtain t1
      where tr: "SPIFLASH_async_trigger H t 0 = (0, t1)" and b1: "busy_pre_check t1 = 0"
        and lt: "write_budget N k t1 < write_budget N k t"
      by blast
    have i1: "write_inv s0 t1"
      using write_step [OF Suc.prems(1) P False tr] by simp
    have "write_budget N k t1 \<le> n"
      using lt Suc.prems(3) by simp
    from Suc.IH [OF i1 _ this] b1 obtain t'
      where "spiflash_exe_loop n H (0, t1) = Some (0, t')" "op t' = SPIFLASH_OP_IDLE"
      by auto
    then show ?thesis
      using False tr by (simp add: spiflash_exe_loop.simps [of "Suc n"] SPIFLASH_OK_def)
  qed
qed

text \<open>The frames and the transport do not depend on the mode of the driver.\<close>

lemma write_frames_fields:
  assumes "cfg t = cfg s" "cmd_tbl t = cmd_tbl s" "tx_internal_buf t = tx_internal_buf s"
  shows "write_frames t a buf cs = write_frames s a buf cs"
proof (induction cs arbitrary: a buf)
  case Nil
  show ?case by simp
next
  case (Cons c cs)
  have "pp_frame t a = pp_frame s a" "addr_frame_len t = addr_frame_len s"
    using assms by (simp_all add: pp_frame_def addr_frame_len_def address_bytes_cong [of t s])
  then show ?case
    using Cons assms(2) by simp
qed

lemma cooperating_fields:
  assumes "cmd_tbl t = cmd_tbl s" "could_be_busy t = could_be_busy s" "hal_log t = hal_log s"
    "busy_pre_check t = busy_pre_check s"
  shows "cooperating H t N = cooperating H s N"
  using assms by (simp add: cooperating_def)

text \<open>A blocking write on a cooperating transport returns \<open>SPIFLASH_OK\<close>.\<close>

lemma write_completes:
  assumes P: "page_sz (cfg s) = 2 ^ k" "k < 32"
    and idle: "op s = SPIFLASH_OP_IDLE" and sync: "async s = 0" and nz: "l \<noteq> 0"
    and fits: "addr_frame_len s \<le> length (tx_internal_buf s)"
    and coop: "cooperating H s N"
    and fuel: "(2 * N + 4) * (3 * length (page_chunks (2 ^ k) (unat a) (unat l)) + 1) < fuel"
  shows "\<exists>s'. SPIFLASH_write fuel H s a l buf = Some (SPIFLASH_OK, s')"
proof -
  have ok: "fst (H h tx n m) = 0" for h tx n m
    using coop by (simp add: cooperating_def)
  have rdy: "\<exists>v. sr_report H (cmd_tbl s) h = Some v \<and>
      (N \<le> polls_since_send (cmd_tbl s) h \<longrightarrow> v AND sr_busy_bit (cmd_tbl s) = 0)" for h
    using coop by (simp add: cooperating_def)
  define s1 where "s1 = s\<lparr>addr := a, wr_buf := buf, wr_len := l, op := SPIFLASH_OP_WRITE_sWREN\<rparr>"
  define s2 where "s2 = (if could_be_busy s1 \<noteq> 0 then s1\<lparr>busy_pre_check := 1\<rparr> else s1)"
  obtain r s3 where b: "spiflash_begin_async H s2 = (r, s3)"
    by (cases "spiflash_begin_async H s2")
  have s2f: "op s2 = SPIFLASH_OP_WRITE_sWREN" "addr s2 = a" "wr_buf s2 = buf" "wr_len s2 = l"
    "cfg s2 = cfg s" "cmd_tbl s2 = cmd_tbl s" "tx_internal_buf s2 = tx_internal_buf s"
    "hal_log s2 = hal_log s" "async s2 = 0" "busy_check_wait s2 = busy_check_wait s"
    using sync by (simp_all add: s2_def s1_def)
  have ne: "1 \<le> length (tx_internal_buf s)"
    using fits by (simp add: addr_frame_len_def)
  define K where "K = 2 * N + 4"
  define c where "c = length (page_chunks (2 ^ k) (unat a) (unat l))"
  have P2: "page_sz (cfg s2) = 2 ^ k" "wr_len s2 \<noteq> 0"
    using P nz s2f by simp_all
  have cs: "c = Suc (length (page_chunks (2 ^ k) (unat (addr s2 + wr_sz_of s2))
      (unat (wr_len s2 - wr_sz_of s2))))"
    using page_chunks_advance [OF P2(1) P(2) P2(2)] s2f by (simp add: c_def)
  have start: "r = 0 \<and> write_inv s s3 \<and>
      (busy_pre_check s3 \<noteq> 0 \<longrightarrow> sr_data s3 AND sr_busy_bit (cmd_tbl s) = 0) \<and>
      write_budget N k s3 \<le> fuel"
  proof (cases "busy_pre_check s2 \<noteq> 0")
    case True
    then have "could_be_busy s \<noteq> 0 \<or> busy_pre_check s \<noteq> 0"
      by (auto simp add: s2_def s1_def split: if_splits)
    with coop obtain v
      where v: "sr_report H (cmd_tbl s) (hal_log s @ [HAL_cs True]) = Some v"
        and vr: "v AND sr_busy_bit (cmd_tbl s) = 0"
      by (auto simp add: cooperating_def)
    from sr_reportD [OF v] obtain rx
      where rx: "H (hal_log s @ [HAL_cs True]) [read_sr (cmd_tbl s)] 1 1 = (0, rx)"
        "take 1 rx = [v]"
      by blast
    from rx(2) have len: "min (length rx) (Suc 0) = Suc 0"
      by (cases rx) auto
    have s3: "s3 = s2\<lparr>hal_log := hal_log s @ [HAL_cs True, HAL_txrx [read_sr (cmd_tbl s)] 1 1],
        tx_internal_buf := v # drop 1 (tx_internal_buf s)\<rparr>" and r: "r = 0"
      using b True s2f rx len by (simp_all add: spiflash_begin_async_def hal_defs store_rx_def)
    have f: "op s3 = SPIFLASH_OP_WRITE_sWREN" "busy_pre_check s3 \<noteq> 0" "addr s3 = a"
      "wr_buf s3 = buf" "wr_len s3 = l" "cfg s3 = cfg s" "cmd_tbl s3 = cmd_tbl s"
      "scratch_tail s3 = scratch_tail s"
      "length (tx_internal_buf s3) = length (tx_internal_buf s)"
      "sr_data s3 = v"
      using True s2f ne by (simp_all add: s3 scratch_tail_def sr_data_def)
    have i: "write_inv s s3"
      using f fits nz by (simp add: write_inv_def same_chip_def)
    have "write_phases k s3 = write_phases k s2"
      by (rule write_phases_fields) (simp_all add: f s2f)
    then have ph: "write_phases k s3 + 1 = 3 * c"
      using s2f by (simp add: write_phases_def cs)
    have "wait_budget N s3 \<le> K"
      using wait_budget_bounds [of N s3] by (simp add: K_def)
    then have "write_budget N k s3 \<le> K * write_phases k s3 + K + (K + 1)"
      using f by (simp add: write_budget_def K_def)
    also have "\<dots> = K * (write_phases k s3 + 1) + K + 1"
      by (simp add: algebra_simps)
    also have "\<dots> = K * (3 * c + 1) + 1"
      unfolding ph by (simp add: algebra_simps)
    also have "\<dots> \<le> fuel"
      using fuel by (simp add: K_def c_def)
    finally show ?thesis
      using r i f vr by simp
  next
    case False
    have s3: "s3 = s2\<lparr>hal_log := hal_log s @ [HAL_cs True, HAL_txrx [write_enable (cmd_tbl s)] 1 0]\<rparr>"
      and r: "r = 0"
      using b False s2f by (simp_all add: spiflash_begin_async_def begin_wren_eq ok)
    have f: "op s3 = SPIFLASH_OP_WRITE_sWREN" "busy_pre_check s3 = 0" "addr s3 = a"
      "wr_buf s3 = buf" "wr_len s3 = l" "cfg s3 = cfg s" "cmd_tbl s3 = cmd_tbl s"
      "scratch_tail s3 = scratch_tail s"
      "length (tx_internal_buf s3) = length (tx_internal_buf s)"
      using False s2f by (simp_all add: s3 scratch_tail_def)
    have i: "write_inv s s3"
      using f fits nz by (simp add: write_inv_def same_chip_def)
    have "write_phases k s3 = write_phases k s2"
      by (rule write_phases_fields) (simp_all add: f s2f)
    then have ph: "write_phases k s3 + 1 = 3 * c"
      using s2f by (simp add: write_phases_def cs)
    have "wait_budget N s3 \<le> K"
      using wait_budget_bounds [of N s3] by (simp add: K_def)
    then have "write_budget N k s3 \<le> K * write_phases k s3 + K"
      using f by (simp add: write_budget_def K_def)
    also have "\<dots> = K * (write_phases k s3 + 1)"
      by (simp add: algebra_simps)
    also have "\<dots> \<le> K * (3 * c + 1)"
      unfolding ph by simp
    also have "\<dots> \<le> fuel"
      using fuel by (simp add: K_def c_def)
    finally show ?thesis
      using r i f by simp
  qed
  then have r0: "r = 0" and i3: "write_inv s s3"
    and pre3: "busy_pre_check s3 \<noteq> 0 \<Longrightarrow> sr_data s3 AND sr_busy_bit (cmd_tbl s) = 0"
    and f3: "write_budget N k s3 \<le> fuel"
    by simp_all
  from live_loop [where H = H and N = N and ?s0.0 = s, OF ok rdy P i3 pre3 f3] obtain t'
    where loop: "spiflash_exe_loop fuel H (0, s3) = Some (0, t')"
    by blast
  have "spiflash_exe fuel H s1 = Some (SPIFLASH_OK, spiflash_finalize t')"
    using b r0 loop s2f(9)
    by (simp add: spiflash_exe_def Let_def s2_def [symmetric] SPIFLASH_OK_def)
  then show ?thesis
    using idle by (simp add: SPIFLASH_write_def s1_def)
qed

text \<open>The transport that is busy for the first two status reads cooperates.\<close>

lemma pss_le_count: "polls_since_send c h \<le> count_list h (sr_poll c)"
proof -
  have "count_list (takeWhile P xs) x \<le> count_list xs x" for P and xs :: "hal_event list" and x
    by (induction xs) simp_all
  from this [of "\<lambda>e. \<not> sends_only e" "rev h" "sr_poll c"] show ?thesis
    by (simp add: polls_since_send_def)
qed

lemma hal_busy_twice_cooperating: "cooperating hal_busy_twice spi_typical 2"
proof -
  have c: "cmd_tbl spi_typical = SPIFLASH_CMD_TBL_STANDARD" "could_be_busy spi_typical = 0"
    "busy_pre_check spi_typical = 0"
    by (simp_all add: spi_typical_def SPIFLASH_init_def)
  have b: "sr_busy_bit SPIFLASH_CMD_TBL_STANDARD = 1"
    by (simp add: SPIFLASH_CMD_TBL_STANDARD_def)
  have r: "sr_report hal_busy_twice SPIFLASH_CMD_TBL_STANDARD h
      = Some (if count_list h (sr_poll SPIFLASH_CMD_TBL_STANDARD) < 2 then 1 else 0)" for h
    by (simp add: sr_report_def hal_busy_twice_def)
  have "2 \<le> polls_since_send SPIFLASH_CMD_TBL_STANDARD h \<Longrightarrow>
      \<not> count_list h (sr_poll SPIFLASH_CMD_TBL_STANDARD) < 2" for h
    using pss_le_count [of SPIFLASH_CMD_TBL_STANDARD h] by simp
  then show ?thesis
    by (simp add: cooperating_def c b r hal_busy_twice_def)
qed

text \<open>
  C3, as the code has it. Take a configuration whose page size is a power of two and
  whose address field has at most four bytes (a wider field makes the shift in
  \<open>_spiflash_compose_address\<close> undefined) and fits the scratch buffer with its dummy bytes,
  an idle driver, and a transport that cooperates: every transfer succeeds and the chip
  reports busy for at most \<open>N\<close> status reads after a transfer that only sends. Then a
  write of \<open>l > 0\<close> bytes returns \<open>SPIFLASH_OK\<close>, as a blocking call and as an asynchronous
  call driven by immediate completions, as soon as the fuel covers
  \<open>(2 N + 4) (3 n + 1)\<close> turns for the \<open>n\<close> parts of the write. Its send-only transfers are
  exactly these: for each part of \<open>[a, a + l)\<close> cut at the multiples of the page size, in
  order, a write enable frame, a page program frame with the address of the running
  cursor, and the payload of that part. The payload sizes add up to \<open>l\<close>.
\<close>

theorem write_page_split:
  assumes P: "page_sz (cfg s) = 2 ^ k" "k < 32"
    and asz: "unat (addr_sz (cfg s)) \<le> 4"
    and idle: "op s = SPIFLASH_OP_IDLE" and nz: "l \<noteq> 0"
    and fits: "addr_frame_len s \<le> length (tx_internal_buf s)"
    and coop: "cooperating H s N"
    and fuel: "(2 * N + 4) * (3 * length (page_chunks (2 ^ k) (unat a) (unat l)) + 1) < fuel"
  shows "(\<exists>s'. sync_run fuel H s (Req_write a l buf) = Some (SPIFLASH_OK, s') \<and>
            filter sends_only (hal_log s')
              = filter sends_only (hal_log s) @
                write_frames s a buf (page_chunks (2 ^ k) (unat a) (unat l))) \<and>
         (\<exists>s'. async_run fuel H s (Req_write a l buf) = Some (SPIFLASH_OK, s') \<and>
            filter sends_only (hal_log s')
              = filter sends_only (hal_log s) @
                write_frames s a buf (page_chunks (2 ^ k) (unat a) (unat l))) \<and>
         sum_list (page_chunks (2 ^ k) (unat a) (unat l)) = unat l"
proof -
  let ?ss = "s\<lparr>async := 0\<rparr>"
  let ?req = "Req_write a l buf"
  let ?fs = "write_frames s a buf (page_chunks (2 ^ k) (unat a) (unat l))"
  have h: "page_sz (cfg ?ss) = 2 ^ k" "op ?ss = SPIFLASH_OP_IDLE" "async ?ss = 0"
    "addr_frame_len ?ss \<le> length (tx_internal_buf ?ss)"
    using P idle fits by (simp_all add: addr_frame_len_def)
  have co: "cooperating H ?ss N"
    using coop cooperating_fields [of ?ss s H N] by simp
  from write_completes [OF h(1) P(2) h(2,3) nz h(4) co fuel] obtain s'
    where run: "SPIFLASH_write fuel H ?ss a l buf = Some (SPIFLASH_OK, s')"
    by blast
  have wf: "write_frames ?ss a buf cs = write_frames s a buf cs" for cs
    by (rule write_frames_fields) simp_all
  from write_frames_when_ok [OF h(1) P(2) h(2,3) nz h(4) run]
  have fr: "filter sends_only (hal_log s') = filter sends_only (hal_log s) @ ?fs"
    and sm: "sum_list (page_chunks (2 ^ k) (unat a) (unat l)) = unat l"
    by (simp_all add: wf)
  have sy: "sync_run fuel H s ?req = Some (SPIFLASH_OK, s')"
    using run by (simp add: sync_run_def)
  have sa: "s\<lparr>async := 1\<rparr> = in_mode 1 (async_cb s) (cb_log s) ?ss"
    by (simp add: in_mode_def)
  have ag: "agree fuel H (async_cb s) (cb_log s)
      (SPIFLASH_request fuel H (s\<lparr>async := 1\<rparr>) ?req) (sync_run fuel H s ?req)"
    unfolding sa sync_run_def by (rule request_agree) simp
  have ar: "async_run fuel H s ?req
      = (case SPIFLASH_request fuel H (s\<lparr>async := 1\<rparr>) ?req of
           None \<Rightarrow> None | Some x \<Rightarrow> async_completions fuel H x)"
    by (simp add: async_run_def)
  from ag have "map_option (\<lambda>(r', a). (r', hal_log a, map snd (cb_log a)))
       (async_run fuel H s ?req)
     = map_option (\<lambda>(r', s'). (r', hal_log s',
           map snd (cb_log s) @
             (if async_cb s \<and> map_option fst (SPIFLASH_request fuel H (s\<lparr>async := 1\<rparr>) ?req)
                  = Some SPIFLASH_OK then [r'] else [])))
       (sync_run fuel H s ?req)"
    by (simp only: agree_def ar)
  then obtain t' where as: "async_run fuel H s ?req = Some (SPIFLASH_OK, t')"
    and lg: "hal_log t' = hal_log s'"
    by (cases "async_run fuel H s ?req") (auto simp add: sy)
  show ?thesis
    using sy as fr lg sm by simp
qed

text \<open>
  Six bytes at \<open>0xFE\<close> with pages of 256, on a chip that is busy for two status reads: two
  bytes, then four at \<open>0x100\<close>, in both modes.
\<close>

theorem write_page_split_witness:
  "page_sz (cfg spi_typical) = 2 ^ 8 \<and> (8::nat) < 32 \<and> unat (addr_sz (cfg spi_typical)) \<le> 4 \<and>
   op spi_typical = SPIFLASH_OP_IDLE \<and> (6::u32) \<noteq> 0 \<and>
   addr_frame_len spi_typical \<le> length (tx_internal_buf spi_typical) \<and>
   cooperating hal_busy_twice spi_typical 2 \<and>
   (2 * 2 + 4) * (3 * length (page_chunks (2 ^ 8) (unat (0xFE :: u32)) (unat (6 :: u32))) + 1)
     < (60 :: nat) \<and>
   map_option (\<lambda>(res, s'). (res, filter sends_only (hal_log s')))
     (sync_run 60 hal_busy_twice spi_typical (Req_write 0xFE 6 [1, 2, 3, 4, 5, 6]))
     = Some (SPIFLASH_OK,
         [HAL_txrx [0x06] 1 0, HAL_txrx [0x02, 0x00, 0x00, 0xFE] 4 0, HAL_txrx [1, 2] 2 0,
          HAL_txrx [0x06] 1 0, HAL_txrx [0x02, 0x00, 0x01, 0x00] 4 0,
          HAL_txrx [3, 4, 5, 6] 4 0]) \<and>
   map_option (\<lambda>(res, s'). (res, filter sends_only (hal_log s')))
     (async_run 60 hal_busy_twice spi_typical (Req_write 0xFE 6 [1, 2, 3, 4, 5, 6]))
     = Some (SPIFLASH_OK,
         [HAL_txrx [0x06] 1 0, HAL_txrx [0x02, 0x00, 0x00, 0xFE] 4 0, HAL_txrx [1, 2] 2 0,
          HAL_txrx [0x06] 1 0, HAL_txrx [0x02, 0x00, 0x01, 0x00] 4 0,
          HAL_txrx [3, 4, 5, 6] 4 0]) \<and>
   page_chunks (2 ^ 8) (unat (0xFE :: u32)) (unat (6 :: u32)) = [2, 4]"
proof -
  have h: "page_sz (cfg spi_typical) = 2 ^ 8" "(8::nat) < 32"
    "unat (addr_sz (cfg spi_typical)) \<le> 4"
    "op spi_typical = SPIFLASH_OP_IDLE" "(6::u32) \<noteq> 0"
    "addr_frame_len spi_typical \<le> length (tx_internal_buf spi_typical)"
    by (simp_all add: spi_typical_def SPIFLASH_init_def cfg_typical_def addr_frame_len_def)
  have ch: "page_chunks (2 ^ 8) (unat (0xFE :: u32)) (unat (6 :: u32)) = [2, 4]"
    by code_simp
  have fu: "(2 * 2 + 4) * (3 * length (page_chunks (2 ^ 8) (unat (0xFE :: u32)) (unat (6 :: u32))) + 1)
      < (60 :: nat)"
    unfolding ch by simp
  have ch': "page_chunks 256 254 6 = [2, 4]"
    by code_simp
  have fr: "write_frames spi_typical 0xFE [1, 2, 3, 4, 5, 6] [2, 4]
      = [HAL_txrx [0x06] 1 0, HAL_txrx [0x02, 0x00, 0x00, 0xFE] 4 0, HAL_txrx [1, 2] 2 0,
          HAL_txrx [0x06] 1 0, HAL_txrx [0x02, 0x00, 0x01, 0x00] 4 0,
          HAL_txrx [3, 4, 5, 6] 4 0]"
    by code_simp
  have lg: "hal_log spi_typical = []"
    by (simp add: spi_typical_def SPIFLASH_init_def)
  have cs: "write_enable (cmd_tbl spi_typical) = 6" "addr_frame_len spi_typical = 4"
    "pp_frame spi_typical 254 = [2, 0, 0, 254]" "pp_frame spi_typical 256 = [2, 0, 1, 0]"
    by code_simp+
  from write_page_split [OF h hal_busy_twice_cooperating fu, of "[1, 2, 3, 4, 5, 6]"]
  obtain s' t' where
    "sync_run 60 hal_busy_twice spi_typical (Req_write 0xFE 6 [1, 2, 3, 4, 5, 6])
       = Some (SPIFLASH_OK, s')"
    "filter sends_only (hal_log s') = write_frames spi_typical 0xFE [1, 2, 3, 4, 5, 6] [2, 4]"
    "async_run 60 hal_busy_twice spi_typical (Req_write 0xFE 6 [1, 2, 3, 4, 5, 6])
       = Some (SPIFLASH_OK, t')"
    "filter sends_only (hal_log t') = write_frames spi_typical 0xFE [1, 2, 3, 4, 5, 6] [2, 4]"
    unfolding ch by (auto simp add: lg)
  then show ?thesis
    using h hal_busy_twice_cooperating ch by (simp add: fr ch' cs)
qed

text \<open>
  C3 as stated fails for a page size that is not a power of two: with pages of 264
  bytes, 20 bytes at address 250 go out as one payload of 20, across the page boundary
  at 264, where the split would be 14 and 6. It fails as well on a transport that does
  not cooperate: when the first payload transfer fails, the write returns that error and
  the second part is never sent.
\<close>

theorem write_page_split_counterexample:
  "page_sz (cfg_typical\<lparr>page_sz := 264\<rparr>) = 264 \<and>
   map_option (\<lambda>(res, s'). (res, sent_lengths (hal_log s')))
     (SPIFLASH_write 20 hal_ready (spi_typical\<lparr>cfg := cfg_typical\<lparr>page_sz := 264\<rparr>\<rparr>)
        250 20 (replicate 20 0xAA))
     = Some (SPIFLASH_OK, [1, 4, 20]) \<and>
   page_chunks 264 250 20 = [14, 6] \<and>
   page_sz (cfg spi_typical) = 256 \<and>
   map_option (\<lambda>(res, s'). (res, sent_lengths (hal_log s')))
     (SPIFLASH_write 20 hal_fail_payload spi_typical 0xFE 6 [1, 2, 3, 4, 5, 6])
     = Some (- 1, [1, 4, 2]) \<and>
   page_chunks 256 0xFE 6 = [2, 4]"
  by code_simp

text \<open>
  Without the bound on the busy reads there need be no result: a chip that never reports
  ready is polled for ever, whatever the fuel.
\<close>

lemma busy_loop_never_ends:
  assumes busy: "\<And>h. \<exists>v. sr_report H c h = Some v \<and> v AND sr_busy_bit c \<noteq> 0"
    and "cmd_tbl t = c" and "busy_pre_check t = 0" and "op t \<noteq> SPIFLASH_OP_IDLE"
    and "busy_check_wait t = BCW_READ_SR \<or>
         busy_check_wait t = BCW_CHECK \<and> sr_data t AND sr_busy_bit c \<noteq> 0"
  shows "spiflash_exe_loop fuel H (0, t) = None"
  using assms(2-5)
proof (induction fuel arbitrary: t)
  case 0
  then show ?case
    by (simp add: spiflash_exe_loop.simps SPIFLASH_OK_def)
next
  case (Suc n)
  have step: "spiflash_exe_loop (Suc n) H (0, t) = spiflash_exe_loop n H (SPIFLASH_async_trigger H t 0)"
    using Suc.prems(3) by (simp add: spiflash_exe_loop.simps [of "Suc n"] SPIFLASH_OK_def)
  show ?case
  proof (cases "busy_check_wait t = BCW_READ_SR")
    case True
    from busy [of "hal_log t @ [HAL_cs True]"] obtain v
      where v: "sr_report H (cmd_tbl t) (hal_log t @ [HAL_cs True]) = Some v"
        and vb: "v AND sr_busy_bit c \<noteq> 0"
      using Suc.prems(1) by auto
    define u where "u = t\<lparr>busy_check_wait := BCW_CHECK,
        tx_internal_buf := v # drop 1 (tx_internal_buf t),
        hal_log := hal_log t @ [HAL_cs True, sr_poll (cmd_tbl t)]\<rparr>"
    have tr: "SPIFLASH_async_trigger H t 0 = (0, u)"
      using poll_step [OF Suc.prems(2) True Suc.prems(3) v] by (simp add: u_def)
    have "spiflash_exe_loop n H (0, u) = None"
      using Suc.prems vb by (intro Suc.IH) (simp_all add: u_def sr_data_def)
    then show ?thesis
      by (simp add: step tr)
  next
    case False
    then have chk: "busy_check_wait t = BCW_CHECK"
      and sb: "sr_data t AND sr_busy_bit (cmd_tbl t) \<noteq> 0"
      using Suc.prems(1,4) by simp_all
    define u where "u = t\<lparr>wait_period_ms := DECR_WAIT (wait_period_ms t),
        busy_check_wait := BCW_READ_SR,
        hal_log := hal_log t @ [HAL_cs False, HAL_wait (DECR_WAIT (wait_period_ms t))]\<rparr>"
    have tr: "SPIFLASH_async_trigger H t 0 = (0, u)"
      using trigger_bcw_check_busy [OF Suc.prems(2) chk Suc.prems(3) sb, of H] by (simp add: u_def)
    have "spiflash_exe_loop n H (0, u) = None"
      using Suc.prems by (intro Suc.IH) (simp_all add: u_def)
    then show ?thesis
      by (simp add: step tr)
  qed
qed

lemma write_on_busy_chip_never_returns:
  "SPIFLASH_write fuel hal_busy spi_typical 0 1 [0xAA] = None"
proof -
  define s1 where "s1 = spi_typical\<lparr>addr := 0, wr_buf := [0xAA], wr_len := 1,
      op := SPIFLASH_OP_WRITE_sWREN\<rparr>"
  define t0 where "t0 = snd (spiflash_begin_async hal_busy s1)"
  define t1 where "t1 = snd (SPIFLASH_async_trigger hal_busy t0 0)"
  define t2 where "t2 = snd (SPIFLASH_async_trigger hal_busy t1 0)"
  define t3 where "t3 = snd (SPIFLASH_async_trigger hal_busy t2 0)"
  have b: "spiflash_begin_async hal_busy s1 = (0, t0)"
    unfolding t0_def s1_def by code_simp
  have tr: "SPIFLASH_async_trigger hal_busy t0 0 = (0, t1)"
    "SPIFLASH_async_trigger hal_busy t1 0 = (0, t2)"
    "SPIFLASH_async_trigger hal_busy t2 0 = (0, t3)"
    unfolding t3_def t2_def t1_def t0_def s1_def by code_simp+
  have ops: "op t0 \<noteq> SPIFLASH_OP_IDLE" "op t1 \<noteq> SPIFLASH_OP_IDLE" "op t2 \<noteq> SPIFLASH_OP_IDLE"
    "op t3 \<noteq> SPIFLASH_OP_IDLE" "busy_pre_check t3 = 0" "busy_check_wait t3 = BCW_READ_SR"
    "cmd_tbl t3 = SPIFLASH_CMD_TBL_STANDARD"
    unfolding t3_def t2_def t1_def t0_def s1_def by code_simp+
  have busy: "\<exists>v. sr_report hal_busy SPIFLASH_CMD_TBL_STANDARD h = Some v \<and>
      v AND sr_busy_bit SPIFLASH_CMD_TBL_STANDARD \<noteq> 0" for h
    by (simp add: sr_report_def hal_busy_def SPIFLASH_CMD_TBL_STANDARD_def)
  have rest: "spiflash_exe_loop n hal_busy (0, t3) = None" for n
    by (rule busy_loop_never_ends [where c = SPIFLASH_CMD_TBL_STANDARD, OF busy])
       (simp_all add: ops)
  have unf: "spiflash_exe_loop n hal_busy (0, t) =
      (case n of 0 \<Rightarrow> None | Suc m \<Rightarrow> spiflash_exe_loop m hal_busy (SPIFLASH_async_trigger hal_busy t 0))"
    if "op t \<noteq> SPIFLASH_OP_IDLE" for n t
    using that by (simp add: spiflash_exe_loop.simps [of n] SPIFLASH_OK_def)
  have "spiflash_exe_loop fuel hal_busy (0, t0) = None"
    by (simp add: unf ops tr rest split: nat.split)
  moreover have "async s1 = 0" "could_be_busy s1 = 0" "op spi_typical = SPIFLASH_OP_IDLE"
    by (simp_all add: s1_def spi_typical_def SPIFLASH_init_def)
  ultimately show ?thesis
    using b by (simp add: SPIFLASH_write_def spiflash_exe_def Let_def s1_def [symmetric])
qed

section \<open>Erase planning\<close>

text \<open>
  C1 does not hold on the code for odd addresses. \<open>_spiflash_clz\<close> gives 32 for 1 as it
  does for 0 (the table entry at index 0), so an odd address counts as aligned to every
  size: \<open>erase(1, 4096)\<close> is accepted and erases a 4 KiB block addressed at 1, while
  \<open>erase(2, 4096)\<close> is rejected as unaligned.
\<close>

theorem erase_odd_address_accepted:
  "spiflash_get_largest_erase_area spi_typical 1 0x1000 = 0x1000 \<and>
   \<not> (4096 :: nat) dvd unat (1 :: u32) \<and>
   observed (SPIFLASH_erase 10 hal_ready spi_typical 1 0x1000)
     = Some (SPIFLASH_OK,
        [HAL_cs True, HAL_txrx [0x06] 1 0, HAL_cs False,
         HAL_cs True, HAL_txrx [0x20, 0x00, 0x00, 0x01] 4 0, HAL_cs False,
         HAL_wait 50, HAL_cs True, HAL_txrx [0x05] 1 1, HAL_cs False, HAL_cs False]) \<and>
   SPIFLASH_erase 10 hal_ready spi_typical 2 0x1000
     = Some (SPIFLASH_ERR_ERASE_UNALIGNED, spi_typical) \<and>
   spiflash_clz 1 = 32 \<and> spiflash_clz 2 = 1"
  by code_simp

text \<open>
  What \<open>_spiflash_clz\<close> computes. \<open>v & -v\<close> is the lowest set bit of \<open>v\<close>, and the table maps
  bit \<open>n\<close> to \<open>n\<close>, but bit 0 to 32: the count of trailing zeros for an even \<open>v\<close>, and 32
  both for 0 and for every odd \<open>v\<close>.
\<close>

lemma succ_and_not_even:
  fixes x :: u32
  assumes "even x" shows "(1 + x) AND NOT x = 1"
proof (rule bit_eqI)
  fix n
  show "bit ((1 + x) AND NOT x) n \<longleftrightarrow> bit (1 :: u32) n"
    using assms bit_imp_le_length [of x n]
    by (auto simp add: bit_and_iff bit_not_iff even_bit_succ_iff bit_1_iff bit_0)
qed

lemma odd_and_neg:
  fixes b :: u32
  assumes "odd b" shows "b AND - b = 1"
proof -
  from assms obtain w where b: "b = 2 * w + 1"
    by (rule oddE)
  define x where "x = 2 * w"
  have ev: "even x" by (simp add: x_def)
  have "- b = NOT x"
    by (simp add: minus_eq_not_minus_1 b x_def)
  moreover have "b = 1 + x"
    by (simp add: b x_def)
  ultimately show ?thesis
    using succ_and_not_even [OF ev] by simp
qed

lemma nonzero_decomp:
  fixes v :: u32
  assumes "v \<noteq> 0" shows "\<exists>n < 32. \<exists>b. odd b \<and> v = push_bit n b"
proof -
  from assms obtain m where m: "bit v m"
    by (auto simp add: bit_eq_iff)
  define n where "n = (LEAST m. bit v m)"
  have bn: "bit v n" unfolding n_def using m by (rule LeastI)
  have low: "\<not> bit v k" if "k < n" for k
    using that not_less_Least n_def by fastforce
  have n32: "n < 32"
    using bn bit_imp_le_length [of v n] by simp
  have tb: "take_bit n v = 0"
    by (rule bit_eqI) (simp add: bit_simps low)
  have "push_bit n (drop_bit n v) + take_bit n v = v"
    by (rule bits_ident)
  then have v: "v = push_bit n (drop_bit n v)"
    by (simp add: tb)
  have "odd (drop_bit n v)"
    using bn by (simp add: bit_iff_odd_drop_bit)
  with v n32 show ?thesis by blast
qed

lemma debruijn_table:
  "list_all (\<lambda>n. MultiplyDeBruijnBitPosition ! unat (drop_bit 27 (push_bit n 1 * 0x077CB531 :: u32))
      = (if n = 0 then 32 else n)) [0 ..< 32]"
  by code_simp

lemma clz_push_bit:
  fixes b :: u32
  assumes "n < 32" "odd b"
  shows "spiflash_clz (push_bit n b) = (if n = 0 then 32 else n)"
proof -
  have "push_bit n b AND - push_bit n b = push_bit n (b AND - b)"
    by (simp add: push_bit_and push_bit_minus)
  then have low: "push_bit n b AND - push_bit n b = push_bit n 1"
    using assms(2) by (simp add: odd_and_neg)
  from debruijn_table assms(1) show ?thesis
    unfolding spiflash_clz_def low by (simp add: list_all_iff)
qed

lemma spiflash_clz_zero: "spiflash_clz 0 = 32"
  by (simp add: spiflash_clz_def MultiplyDeBruijnBitPosition_def)

lemma spiflash_clz_odd:
  fixes v :: u32
  assumes "odd v" shows "spiflash_clz v = 32"
  using clz_push_bit [of 0 v] assms by simp

lemma spiflash_clz_dvd:
  fixes v :: u32
  assumes "even v" "k < 32"
  shows "k \<le> spiflash_clz v \<longleftrightarrow> 2 ^ k dvd unat v"
proof (cases "v = 0")
  case True
  then show ?thesis using assms(2) by (simp add: spiflash_clz_zero)
next
  case False
  then obtain n b where n: "n < 32" and b: "odd b" and v: "v = push_bit n b"
    using nonzero_decomp [of v] by blast
  have n0: "n \<noteq> 0" using assms(1) b v by auto
  have clz: "spiflash_clz v = n"
    using clz_push_bit [OF n b] n0 by (simp add: v)
  have "2 ^ k dvd unat v \<longleftrightarrow> take_bit k v = 0"
    by (simp add: and_low_bits [symmetric] take_bit_eq_mask mask_eq_decr_exp)
  also have "\<dots> \<longleftrightarrow> k \<le> n"
  proof
    assume z: "take_bit k v = 0"
    show "k \<le> n"
    proof (rule ccontr)
      assume "\<not> k \<le> n"
      then have "bit (take_bit k v) n"
        using b n by (simp add: bit_simps v bit_0)
      then show False by (simp add: z)
    qed
  next
    assume "k \<le> n"
    then show "take_bit k v = 0"
      by (intro bit_eqI) (auto simp add: bit_simps v)
  qed
  finally show ?thesis by (simp add: clz)
qed

text \<open>
  The planner on an even address: 0 unless the length is a multiple of the smallest
  supported size, else the largest supported size that divides the address and is at
  most the length (0 when there is none).
\<close>

lemma loop_unrolled:
  "erase_area_loop z l
     (drop_bit (spiflash_clz (ucast (spiflash_get_supported_block_mask s)))
        (spiflash_get_supported_block_mask s))
     (spiflash_clz (ucast (spiflash_get_supported_block_mask s)) + 8) 0
   = erase_area_ref (cmd_tbl s) z l"
  unfolding clz_block_mask
  by (cases "block_erase_4 (cmd_tbl s) = 0"; cases "block_erase_8 (cmd_tbl s) = 0";
      cases "block_erase_16 (cmd_tbl s) = 0"; cases "block_erase_32 (cmd_tbl s) = 0";
      cases "block_erase_64 (cmd_tbl s) = 0";
      simp add: spiflash_get_supported_block_mask_def erase_area_loop.simps Let_def
        spiflash_clz_def MultiplyDeBruijnBitPosition_def erase_area_ref_def)

lemma erase_area_ref_even:
  fixes a :: u32
  assumes "even a"
  shows "unat (erase_area_ref c (spiflash_clz a) l) = largest_fitting c (unat a) (unat l)"
proof -
  have d: "(12 \<le> spiflash_clz a) = (4096 dvd unat a)"
    "(13 \<le> spiflash_clz a) = (8192 dvd unat a)"
    "(14 \<le> spiflash_clz a) = (16384 dvd unat a)"
    "(15 \<le> spiflash_clz a) = (32768 dvd unat a)"
    "(16 \<le> spiflash_clz a) = (65536 dvd unat a)"
    using spiflash_clz_dvd [OF assms, of 12] spiflash_clz_dvd [OF assms, of 13]
      spiflash_clz_dvd [OF assms, of 14] spiflash_clz_dvd [OF assms, of 15]
      spiflash_clz_dvd [OF assms, of 16]
    by simp_all
  show ?thesis
    by (cases "block_erase_4 c = 0"; cases "block_erase_8 c = 0";
        cases "block_erase_16 c = 0"; cases "block_erase_32 c = 0";
        cases "block_erase_64 c = 0";
        simp add: erase_area_ref_def largest_fitting_def fitting_erase_sizes_def
          supported_erase_sizes_def d word_le_nat_alt)
qed

lemma last_sorted_Max:
  fixes xs :: "nat list"
  assumes "sorted xs" "xs \<noteq> []"
  shows "last xs = Max (set xs)"
  using assms
proof (induction xs)
  case Nil
  then show ?case by simp
next
  case (Cons x xs)
  show ?case
  proof (cases "xs = []")
    case True
    then show ?thesis by simp
  next
    case False
    have "last xs = Max (set xs)"
      using Cons False by simp
    moreover have "x \<le> Max (set xs)"
      using Cons.prems(1) False
      by (metis List.finite_set Max_ge last_in_set calculation sorted_simps(2) )
    ultimately show ?thesis
      using False by (simp add: max_absorb2)
  qed
qed

lemma sorted_supported_erase_sizes: "sorted (supported_erase_sizes c)"
  by (simp add: supported_erase_sizes_def)

lemma largest_fitting_Max:
  "largest_fitting c a l =
     (if \<exists>S \<in> set (supported_erase_sizes c). S dvd a \<and> S \<le> l
      then Max {S \<in> set (supported_erase_sizes c). S dvd a \<and> S \<le> l} else 0)"
proof (cases "fitting_erase_sizes c a l = []")
  case True
  then show ?thesis
    by (auto simp add: largest_fitting_def fitting_erase_sizes_def filter_empty_conv)
next
  case False
  have "sorted (fitting_erase_sizes c a l)"
    unfolding fitting_erase_sizes_def by (rule sorted_wrt_filter) (rule sorted_supported_erase_sizes)
  from last_sorted_Max [OF this False] False show ?thesis
    by (auto simp add: largest_fitting_def fitting_erase_sizes_def filter_empty_conv)
qed

lemma planner_even:
  fixes a :: u32
  assumes "supported_erase_sizes (cmd_tbl s) \<noteq> []" and "even a"
  shows "unat (spiflash_get_largest_erase_area s a l) =
     (if smallest_erase_size (cmd_tbl s) dvd unat l
      then largest_fitting (cmd_tbl s) (unat a) (unat l) else 0)"
proof -
  let ?m = "spiflash_clz (ucast (spiflash_get_supported_block_mask s))"
  have c: "(l AND (push_bit (?m + 8) 1 - 1) \<noteq> 0) = (\<not> smallest_erase_size (cmd_tbl s) dvd unat l)"
    using assms(1) by (simp add: and_low_bits smallest_erase_size_eq)
  show ?thesis
    unfolding spiflash_get_largest_erase_area_def Let_def c loop_unrolled
    using erase_area_ref_even [OF assms(2), of "cmd_tbl s" l] by simp
qed

text \<open>An odd address is planned as address 0 is: every size counts as aligned.\<close>

lemma planner_odd:
  fixes a :: u32
  assumes "odd a"
  shows "spiflash_get_largest_erase_area s a l = spiflash_get_largest_erase_area s 0 l"
  by (simp add: spiflash_get_largest_erase_area_def spiflash_clz_odd [OF assms] spiflash_clz_zero)

text \<open>
  An aligned request on the usual chip: 100 KiB from 32 KiB on are erased as a 32 KiB,
  a 64 KiB and a 4 KiB block, each addressed at the cursor. An address that is even but
  not aligned to the smallest size is rejected by the planner.
\<close>

lemma erase_plan_example:
  "map_option (\<lambda>(res, s). (res, frames_of_length 4 (hal_log s), addr s, erase_len s))
     (SPIFLASH_erase 40 hal_ready spi_typical 0x8000 0x19000)
   = Some (SPIFLASH_OK,
       [[0x52, 0x00, 0x80, 0x00], [0xd8, 0x01, 0x00, 0x00], [0x20, 0x02, 0x00, 0x00]],
       0x21000, 0) \<and>
   spiflash_get_largest_erase_area spi_typical 0x8000 0x19000 = 0x8000 \<and>
   spiflash_get_largest_erase_area spi_typical 0x10000 0x11000 = 0x10000 \<and>
   spiflash_get_largest_erase_area spi_typical 0x20000 0x1000 = 0x1000 \<and>
   spiflash_get_largest_erase_area spi_typical 0x800 0x1000 = 0"
  by code_simp

section \<open>State after an error\<close>

text \<open>
  C2 does not hold on the code when the first transfer of a request fails: the blocking
  read returns the error with \<open>op\<close> still \<open>SPIFLASH_OP_READ\<close>, and the next request is
  rejected with \<open>SPIFLASH_ERR_BUSY\<close>.
\<close>

theorem first_transfer_error_leaves_driver_busy:
  "(case SPIFLASH_read 10 hal_fail spi_typical 0 1 [0] of
      None \<Rightarrow> False
    | Some (res, s1) \<Rightarrow>
        res = - 1 \<and> op s1 = SPIFLASH_OP_READ \<and>
        SPIFLASH_is_busy s1 = SPIFLASH_ERR_BUSY \<and>
        SPIFLASH_read 10 hal_ready s1 0 1 [0] = Some (SPIFLASH_ERR_BUSY, s1))"
  by code_simp

text \<open>
  In asynchronous mode the same failure is returned by the entry point, with \<open>op\<close> in
  flight, and the callback is not called.
\<close>

lemma async_first_transfer_error_no_callback:
  "async_cb spi_with_cb \<and>
   map_option (\<lambda>(res, s). (res, cb_log s, op s))
     (async_run 10 hal_fail spi_with_cb (Req_read 0 1 [0]))
     = Some (- 1, [], SPIFLASH_OP_READ)"
  by code_simp

text \<open>An error passed into the trigger does run the whole reset.\<close>

lemma async_trigger_error_finalizes:
  assumes "e \<noteq> SPIFLASH_OK" and "SPIFLASH_async_trigger H s e = (r, s')"
  shows "r = e \<and> op s' = SPIFLASH_OP_IDLE \<and> wait_period_ms s' = 0 \<and>
     busy_pre_check s' = 0 \<and> busy_check_wait s' = BCW_IDLE \<and> hal_log s' = hal_log s"
  using assms
  by (auto simp add: SPIFLASH_async_trigger_def spiflash_end_async_def spiflash_finalize_def
      Let_def split: if_splits)

text \<open>
  In asynchronous mode an error of a later transfer resets \<open>op\<close> only: here the callback
  fires with the busy wait still armed.
\<close>

lemma async_payload_error_leaves_wait_armed:
  "(case SPIFLASH_write 10 hal_fail_payload (spi_with_cb\<lparr>async := 1\<rparr>) 0 1 [0xAA] of
      None \<Rightarrow> False
    | Some (res, s1) \<Rightarrow>
        res = SPIFLASH_OK \<and>
        (case SPIFLASH_async_trigger hal_fail_payload s1 0 of
           (res2, s2) \<Rightarrow>
             res2 = SPIFLASH_OK \<and>
             (case SPIFLASH_async_trigger hal_fail_payload s2 0 of
                (res3, s3) \<Rightarrow>
                  res3 = - 1 \<and> cb_log s3 = [(SPIFLASH_OP_WRITE_sDATA, - 1)] \<and>
                  op s3 = SPIFLASH_OP_IDLE \<and> busy_check_wait s3 = BCW_WAIT \<and>
                  wait_period_ms s3 = 3)))"
  by code_simp

text \<open>
  A blocking call always clears the three wait fields; \<open>op\<close> is left in flight only by an
  error of the very first step.
\<close>

lemma exe_loop_exit:
  assumes "spiflash_exe_loop fuel H (r0, t0) = Some (r, t)"
  shows "(r = r0 \<and> t = t0 \<and> \<not> (r0 = SPIFLASH_OK \<and> op t0 \<noteq> SPIFLASH_OP_IDLE)) \<or>
         op t = SPIFLASH_OP_IDLE"
  using assms
proof (induction fuel arbitrary: r0 t0)
  case 0
  then show ?case
    by (simp add: spiflash_exe_loop.simps split: if_splits)
next
  case (Suc n)
  show ?case
  proof (cases "r0 = SPIFLASH_OK \<and> op t0 \<noteq> SPIFLASH_OP_IDLE")
    case False
    then show ?thesis
      using Suc.prems by (auto simp add: spiflash_exe_loop.simps)
  next
    case True
    obtain r1 t1 where tr: "SPIFLASH_async_trigger H t0 r0 = (r1, t1)"
      by (cases "SPIFLASH_async_trigger H t0 r0")
    have op1: "r1 \<noteq> SPIFLASH_OK \<longrightarrow> op t1 = SPIFLASH_OP_IDLE"
      using tr
      by (cases "spiflash_end_async H t0 r0")
         (auto simp add: SPIFLASH_async_trigger_def Let_def split: if_splits)
    have rest: "spiflash_exe_loop n H (r1, t1) = Some (r, t)"
      using Suc.prems True tr by (simp add: spiflash_exe_loop.simps [of "Suc n"])
    from Suc.IH [OF rest] op1 show ?thesis
      by auto
  qed
qed

lemma sync_exe_finalized:
  assumes "async s = 0" and "spiflash_exe fuel H s = Some (r, s')"
  shows "wait_period_ms s' = 0 \<and> busy_pre_check s' = 0 \<and> busy_check_wait s' = BCW_IDLE \<and>
     (op s' \<noteq> SPIFLASH_OP_IDLE \<longrightarrow>
        r \<noteq> SPIFLASH_OK \<and>
        r = fst (spiflash_begin_async H
                   (if could_be_busy s \<noteq> 0 then s\<lparr>busy_pre_check := 1\<rparr> else s)))"
proof -
  define s1 where "s1 = (if could_be_busy s \<noteq> 0 then s\<lparr>busy_pre_check := 1\<rparr> else s)"
  obtain r0 t0 where b: "spiflash_begin_async H s1 = (r0, t0)"
    by (cases "spiflash_begin_async H s1")
  have a1: "async s1 = 0" using assms(1) by (simp add: s1_def)
  from assms(2) obtain t where loop: "spiflash_exe_loop fuel H (r0, t0) = Some (r, t)"
    and s': "s' = spiflash_finalize t"
    using b a1
    by (auto simp add: spiflash_exe_def Let_def s1_def [symmetric] split: option.splits)
  have nidle: "op s1 \<noteq> SPIFLASH_OP_IDLE \<or> r0 \<noteq> SPIFLASH_OK"
    using begin_async_idle [of s1 H] b by auto
  have opt0: "op t0 = op s1"
    using begin_async_op [of H s1] b by simp
  from exe_loop_exit [OF loop] nidle opt0
  have "op t \<noteq> SPIFLASH_OP_IDLE \<longrightarrow> r \<noteq> SPIFLASH_OK \<and> r = r0"
    by auto
  moreover have "fst (spiflash_begin_async H s1) = r0"
    using b by simp
  ultimately show ?thesis
    unfolding s1_def by (auto simp add: s' spiflash_finalize_def)
qed

section \<open>The fast read frame\<close>

text \<open>
  C6 does not hold on the code: the fast read step clears scratch byte \<open>1 + addr_sz + 1\<close>,
  not byte \<open>1 + addr_sz\<close>, where the mandatory dummy byte is sent from. With
  \<open>addr_sz = 0\<close> that byte is the data byte of an earlier \<open>write_reg\<close>: the frame is
  \<open>0B FF\<close>.
\<close>

theorem fast_read_dummy_not_cleared:
  "(case SPIFLASH_write_reg 10 hal_ready
           (SPIFLASH_init (cfg_typical\<lparr>addr_sz := 0\<rparr>) SPIFLASH_CMD_TBL_STANDARD False 0)
           0x01 0xFF 0 0 of
      None \<Rightarrow> False
    | Some (res, s1) \<Rightarrow>
        res = SPIFLASH_OK \<and> op s1 = SPIFLASH_OP_IDLE \<and>
        read_data_fast (cmd_tbl s1) = 0x0b \<and> addr_sz (cfg s1) = 0 \<and>
        addr_dummy_sz (cfg s1) = 0 \<and>
        observed (SPIFLASH_fast_read 10 hal_ready (s1\<lparr>hal_log := []\<rparr>) 0 1 [0])
          = Some (SPIFLASH_OK, [HAL_cs True, HAL_txrx [0x0b, 0xFF] 2 1, HAL_cs False]))"
  by code_simp

text \<open>
  The fast read frame in general: the mandatory dummy byte is the scratch byte at
  \<open>1 + addr_sz\<close> as the step found it.
\<close>

lemma fast_read_frame:
  assumes "unat (addr_sz (cfg s)) + 3 \<le> length (tx_internal_buf s)"
  shows "hal_log (snd (begin_fast_read H s)) =
     hal_log s @
     [HAL_cs True,
      HAL_txrx
        (take (1 + unat (addr_sz (cfg s)) + 1 + unat (addr_dummy_sz (cfg s)))
           (read_data_fast (cmd_tbl s) # address_bytes s (addr s) @
            tx_internal_buf s ! Suc (unat (addr_sz (cfg s))) # 0 #
            drop (Suc (Suc (Suc (unat (addr_sz (cfg s)))))) (tx_internal_buf s)))
        (1 + unat (addr_sz (cfg s)) + 1 + unat (addr_dummy_sz (cfg s)))
        (unat (rd_len s))]"
proof -
  let ?n = "unat (addr_sz (cfg s))"
  let ?b = "tx_internal_buf s"
  let ?c = "read_data_fast (cmd_tbl s)"
  have len1: "1 + ?n \<le> length (?b[0 := ?c])"
    using assms by simp
  have ne: "?b \<noteq> []" using assms by auto
  then have hd: "take 1 (?b[0 := ?c]) = [?c]"
    by (cases ?b) simp_all
  have comp: "spiflash_compose_address s (addr s) 1 (?b[0 := ?c])
      = (?c # address_bytes s (addr s)) @ drop (Suc ?n) ?b"
    using compose_address_eq [OF len1, of "addr s"] hd by simp
  have d1: "drop (Suc ?n) ?b = ?b ! Suc ?n # drop (Suc (Suc ?n)) ?b"
    using assms by (simp add: Cons_nth_drop_Suc)
  have d2: "drop (Suc (Suc ?n)) ?b = ?b ! Suc (Suc ?n) # drop (Suc (Suc (Suc ?n))) ?b"
    using assms by (simp add: Cons_nth_drop_Suc)
  have tail: "(drop (Suc ?n) ?b)[Suc 0 := 0] = ?b ! Suc ?n # 0 # drop (Suc (Suc (Suc ?n))) ?b"
    by (subst d1, subst d2) simp
  have upd: "((?c # address_bytes s (addr s)) @ drop (Suc ?n) ?b)[Suc (Suc ?n) := 0]
      = ?c # address_bytes s (addr s) @ ?b ! Suc ?n # 0 # drop (Suc (Suc (Suc ?n))) ?b"
    using tail by (simp add: list_update_append)
  have ca: "spiflash_compose_address (s\<lparr>hal_log := l, tx_internal_buf := b\<rparr>) a off b'
      = spiflash_compose_address s a off b'" for l b a off b'
    by (rule spiflash_compose_address_cong) simp
  show ?thesis
    using comp upd
    by (simp add: begin_fast_read_def hal_defs Let_def ca)
qed

lemma za_upd_low: "zero_after n b \<Longrightarrow> k \<le> n \<Longrightarrow> zero_after n (b[k := v])"
  by (simp add: zero_after_def)

text \<open>
  With an address field of at least one byte, no step of the driver stores a non-zero
  byte behind the address field: the scratch buffer stays as \<open>SPIFLASH_init\<close> zeroed it
  there, through every request and every trigger.
\<close>

lemma replicate_update_same: "(replicate m x)[i := x] = replicate m x"
  by (induction m arbitrary: i) (simp_all split: nat.split)

lemma za_upd_zero: "zero_after n b \<Longrightarrow> zero_after n (b[k := 0])"
proof (cases "k \<le> n")
  case True
  assume "zero_after n b"
  then show ?thesis using True by (rule za_upd_low)
next
  case False
  assume za: "zero_after n b"
  have "drop (Suc n) (b[k := 0]) = (drop (Suc n) b)[k - Suc n := 0]"
    using False by (simp add: drop_update_swap)
  also have "\<dots> = replicate (15 - n) 0"
  proof -
    have "(replicate (15 - n) (0 :: u8))[k - Suc n := 0] = replicate (15 - n) 0"
      by (rule replicate_update_same)
    then show ?thesis using za by (simp add: zero_after_def)
  qed
  finally show ?thesis
    using za by (simp add: zero_after_def)
qed

lemma za_store: "zero_after n b \<Longrightarrow> length rx \<le> 1 \<Longrightarrow> zero_after n (store_rx rx b)"
  by (cases rx) (simp_all add: zero_after_def store_rx_def)

lemma za_compose:
  assumes "zero_after n b" "n = unat (addr_sz (cfg s))" "n \<le> 15"
  shows "zero_after n (spiflash_compose_address s a 1 b)"
proof -
  have len: "1 + unat (addr_sz (cfg s)) \<le> length b"
    using assms by (simp add: zero_after_def)
  have eq: "spiflash_compose_address s a 1 b
      = take 1 b @ address_bytes s a @ drop (1 + unat (addr_sz (cfg s))) b"
    by (rule compose_address_eq [OF len])
  show ?thesis
    unfolding eq using assms by (simp add: zero_after_def)
qed

lemma scratch_zero_upd [simp]:
  "scratch_zero c (s\<lparr>hal_log := l\<rparr>) = scratch_zero c s"
  "scratch_zero c (s\<lparr>cb_log := cl\<rparr>) = scratch_zero c s"
  "scratch_zero c (s\<lparr>op := o'\<rparr>) = scratch_zero c s"
  "scratch_zero c (s\<lparr>wait_period_ms := w\<rparr>) = scratch_zero c s"
  "scratch_zero c (s\<lparr>addr := a\<rparr>) = scratch_zero c s"
  "scratch_zero c (s\<lparr>wr_len := n\<rparr>) = scratch_zero c s"
  "scratch_zero c (s\<lparr>wr_buf := wb\<rparr>) = scratch_zero c s"
  "scratch_zero c (s\<lparr>rd_buf := rb\<rparr>) = scratch_zero c s"
  "scratch_zero c (s\<lparr>busy_pre_check := p\<rparr>) = scratch_zero c s"
  "scratch_zero c (s\<lparr>busy_check_wait := q\<rparr>) = scratch_zero c s"
  "scratch_zero c (s\<lparr>async := x\<rparr>) = scratch_zero c s"
  "scratch_zero c (s\<lparr>async_cb := y\<rparr>) = scratch_zero c s"
  by (simp_all add: scratch_zero_def)

lemma sz_low:
  "scratch_zero c s \<Longrightarrow> k \<le> 1 \<Longrightarrow>
   scratch_zero c (s\<lparr>tx_internal_buf := (tx_internal_buf s)[k := v]\<rparr>)"
  by (simp add: scratch_zero_def za_upd_low)

lemma sz_zero:
  "scratch_zero c s \<Longrightarrow> scratch_zero c (s\<lparr>tx_internal_buf := (tx_internal_buf s)[k := 0]\<rparr>)"
  by (simp add: scratch_zero_def za_upd_zero)

lemma sz_compose:
  "scratch_zero c s \<Longrightarrow>
   scratch_zero c (s\<lparr>tx_internal_buf := spiflash_compose_address s a 1 (tx_internal_buf s)\<rparr>)"
proof -
  assume a: "scratch_zero c s"
  then have "zero_after (unat (addr_sz (cfg s))) (tx_internal_buf s)"
    and "unat (addr_sz (cfg s)) \<le> 15"
    by (simp_all add: scratch_zero_def)
  then have "zero_after (unat (addr_sz (cfg s)))
      (spiflash_compose_address s a 1 (tx_internal_buf s))"
    by (rule za_compose [OF _ refl])
  then show ?thesis
    using a by (simp add: scratch_zero_def)
qed

lemma sz_hal [simp]:
  "scratch_zero c (hal_cs b s) = scratch_zero c s"
  "scratch_zero c (hal_wait ms s) = scratch_zero c s"
  "scratch_zero c (snd (tx_only H tx n s)) = scratch_zero c s"
  "scratch_zero c (snd (txrx_to_dst H tx n m s)) = scratch_zero c s"
  by (simp_all add: hal_defs)

lemma sz_read_sr: "scratch_zero c s \<Longrightarrow> scratch_zero c (snd (txrx_read_sr H s))"
  by (simp add: hal_defs scratch_zero_def za_store)

lemma sz_fields:
  "op (hal_cs b s) = op s" "tx_internal_buf (hal_cs b s) = tx_internal_buf s"
  "cfg (hal_cs b s) = cfg s" "cmd_tbl (hal_cs b s) = cmd_tbl s" "addr (hal_cs b s) = addr s"
  by (simp_all add: hal_defs)

lemma sz_begin_wren: "scratch_zero c s \<Longrightarrow> scratch_zero c (snd (begin_wren H s))"
  by (simp add: begin_wren_def)

lemma sz_begin_write_addr: "scratch_zero c s \<Longrightarrow> scratch_zero c (snd (begin_write_addr H s))"
proof -
  assume a: "scratch_zero c s"
  define s1 where "s1 = hal_cs True s"
  define s2 where "s2 = s1\<lparr>tx_internal_buf := (tx_internal_buf s1)[0 := page_program (cmd_tbl s1)]\<rparr>"
  define s3 where "s3 = s2\<lparr>tx_internal_buf := spiflash_compose_address s2 (addr s2) 1 (tx_internal_buf s2)\<rparr>"
  have "scratch_zero c s1" using a by (simp add: s1_def)
  then have "scratch_zero c s2" unfolding s2_def by (rule sz_low) simp
  then have "scratch_zero c s3" unfolding s3_def by (rule sz_compose)
  then show ?thesis
    by (simp add: begin_write_addr_def Let_def s1_def s2_def s3_def)
qed

lemma sz_begin_write_data: "scratch_zero c s \<Longrightarrow> scratch_zero c (snd (begin_write_data H s))"
  by (simp add: begin_write_data_def Let_def)

lemma sz_begin_erase_block: "scratch_zero c s \<Longrightarrow> scratch_zero c (snd (begin_erase_block H s))"
proof -
  assume a: "scratch_zero c s"
  define s1 where "s1 = hal_cs True s"
  define cmd where "cmd = spiflash_get_erase_cmd s1 (spiflash_get_largest_erase_area s (addr s) (erase_len s))"
  define s2 where "s2 = s1\<lparr>tx_internal_buf := (tx_internal_buf s1)[0 := cmd]\<rparr>"
  define s3 where "s3 = s2\<lparr>tx_internal_buf := spiflash_compose_address s2 (addr s2) 1 (tx_internal_buf s2)\<rparr>"
  have 1: "scratch_zero c s1" using a by (simp add: s1_def)
  then have "scratch_zero c s2" unfolding s2_def by (rule sz_low) simp
  then have "scratch_zero c s3" unfolding s3_def by (rule sz_compose)
  then show ?thesis
    using 1 by (simp add: begin_erase_block_def Let_def s1_def s2_def s3_def cmd_def)
qed

lemma sz_begin_write_sr_data: "scratch_zero c s \<Longrightarrow> scratch_zero c (snd (begin_write_sr_data H s))"
proof -
  assume a: "scratch_zero c s"
  define s1 where "s1 = s\<lparr>tx_internal_buf := (tx_internal_buf s)[1 := sr_data s]\<rparr>"
  define s2 where "s2 = s1\<lparr>tx_internal_buf := (tx_internal_buf s1)[0 := write_sr (cmd_tbl s1)]\<rparr>"
  have "scratch_zero c s1" unfolding s1_def using a by (rule sz_low) simp
  then have "scratch_zero c s2" unfolding s2_def by (rule sz_low) simp
  then show ?thesis
    by (simp add: begin_write_sr_data_def Let_def s1_def s2_def)
qed

lemma sz_begin_erase_chip: "scratch_zero c s \<Longrightarrow> scratch_zero c (snd (begin_erase_chip H s))"
proof -
  assume a: "scratch_zero c s"
  define s1 where "s1 = hal_cs True s"
  define s2 where "s2 = s1\<lparr>tx_internal_buf := (tx_internal_buf s1)[0 := chip_erase (cmd_tbl s1)]\<rparr>"
  have "scratch_zero c s1" using a by (simp add: s1_def)
  then have "scratch_zero c s2" unfolding s2_def by (rule sz_low) simp
  then show ?thesis
    by (simp add: begin_erase_chip_def Let_def s1_def s2_def)
qed

lemma sz_begin_read: "scratch_zero c s \<Longrightarrow> scratch_zero c (snd (begin_read H s))"
proof -
  assume a: "scratch_zero c s"
  define s1 where "s1 = hal_cs True s"
  define s2 where "s2 = s1\<lparr>tx_internal_buf := (tx_internal_buf s1)[0 := read_data (cmd_tbl s1)]\<rparr>"
  define s3 where "s3 = s2\<lparr>tx_internal_buf := spiflash_compose_address s2 (addr s2) 1 (tx_internal_buf s2)\<rparr>"
  have "scratch_zero c s1" using a by (simp add: s1_def)
  then have "scratch_zero c s2" unfolding s2_def by (rule sz_low) simp
  then have "scratch_zero c s3" unfolding s3_def by (rule sz_compose)
  then show ?thesis
    by (simp add: begin_read_def Let_def s1_def s2_def s3_def)
qed

lemma sz_begin_fast_read: "scratch_zero c s \<Longrightarrow> scratch_zero c (snd (begin_fast_read H s))"
proof -
  assume a: "scratch_zero c s"
  define s1 where "s1 = hal_cs True s"
  define s2 where "s2 = s1\<lparr>tx_internal_buf := (tx_internal_buf s1)[0 := read_data_fast (cmd_tbl s1)]\<rparr>"
  define s3 where "s3 = s2\<lparr>tx_internal_buf := spiflash_compose_address s2 (addr s2) 1 (tx_internal_buf s2)\<rparr>"
  define s4 where "s4 = s3\<lparr>tx_internal_buf := (tx_internal_buf s3)[1 + unat (addr_sz (cfg s3)) + 1 := 0]\<rparr>"
  have "scratch_zero c s1" using a by (simp add: s1_def)
  then have "scratch_zero c s2" unfolding s2_def by (rule sz_low) simp
  then have "scratch_zero c s3" unfolding s3_def by (rule sz_compose)
  then have "scratch_zero c s4" unfolding s4_def by (rule sz_zero)
  then show ?thesis
    by (simp add: begin_fast_read_def Let_def s1_def s2_def s3_def s4_def)
qed

lemma sz_begin_write_reg_data:
  "scratch_zero c s \<Longrightarrow> scratch_zero c (snd (begin_write_reg_data H s))"
  by (simp add: begin_write_reg_data_def Let_def)

lemma sz_begin_async: "scratch_zero c s \<Longrightarrow> scratch_zero c (snd (spiflash_begin_async H s))"
  by (cases "op s")
     (simp_all add: spiflash_begin_async_def sz_read_sr sz_begin_wren sz_begin_write_addr
        sz_begin_write_data sz_begin_erase_block sz_begin_write_sr_data sz_begin_erase_chip
        sz_begin_read sz_begin_fast_read sz_begin_write_reg_data)

lemma sz_finalize [simp]: "scratch_zero c (spiflash_finalize s) = scratch_zero c s"
  by (simp add: spiflash_finalize_def)

lemma sz_end_handle_results:
  "scratch_zero c s \<Longrightarrow> scratch_zero c (snd (end_handle_results s r))"
  by (cases "op s") (simp_all add: end_handle_results_def)

lemma sz_end_continue: "scratch_zero c s \<Longrightarrow> scratch_zero c (snd (end_continue H s r))"
proof -
  assume a: "scratch_zero c s"
  obtain r1 s1 where e: "end_handle_results s r = (r1, s1)"
    by (cases "end_handle_results s r")
  have "scratch_zero c s1"
    using sz_end_handle_results [OF a, of r] e by simp
  then show ?thesis
    by (simp add: end_continue_def e sz_begin_async)
qed

lemma sz_end_async: "scratch_zero c s \<Longrightarrow> scratch_zero c (snd (spiflash_end_async H s r))"
  by (simp add: spiflash_end_async_def Let_def sz_begin_async sz_read_sr sz_end_continue)

lemma sz_trigger: "scratch_zero c s \<Longrightarrow> scratch_zero c (snd (SPIFLASH_async_trigger H s e))"
proof -
  assume a: "scratch_zero c s"
  obtain r1 s1 where e: "spiflash_end_async H s e = (r1, s1)"
    by (cases "spiflash_end_async H s e")
  have "scratch_zero c s1"
    using sz_end_async [OF a, of H e] e by simp
  then show ?thesis
    by (simp add: SPIFLASH_async_trigger_def e Let_def)
qed

lemma sz_exe_loop:
  "scratch_zero c s \<Longrightarrow> spiflash_exe_loop fuel H (r, s) = Some (r', s') \<Longrightarrow> scratch_zero c s'"
proof (induction fuel arbitrary: r s)
  case 0
  then show ?case
    by (simp add: spiflash_exe_loop.simps split: if_splits)
next
  case (Suc n)
  show ?case
  proof (cases "r = SPIFLASH_OK \<and> op s \<noteq> SPIFLASH_OP_IDLE")
    case False
    then show ?thesis
      using Suc.prems by (auto simp add: spiflash_exe_loop.simps)
  next
    case True
    obtain r1 s1 where tr: "SPIFLASH_async_trigger H s r = (r1, s1)"
      by (cases "SPIFLASH_async_trigger H s r")
    have 1: "scratch_zero c s1"
      using sz_trigger [OF Suc.prems(1), of H r] tr by simp
    have "spiflash_exe_loop n H (r1, s1) = Some (r', s')"
      using Suc.prems(2) True tr by (simp add: spiflash_exe_loop.simps [of "Suc n"])
    from Suc.IH [OF 1 this] show ?thesis .
  qed
qed

lemma sz_exe:
  assumes "scratch_zero c s" "spiflash_exe fuel H s = Some (r', s')"
  shows "scratch_zero c s'"
proof -
  define s1 where "s1 = (if could_be_busy s \<noteq> 0 then s\<lparr>busy_pre_check := 1\<rparr> else s)"
  have 1: "scratch_zero c s1" using assms(1) by (simp add: s1_def)
  obtain r0 t0 where b: "spiflash_begin_async H s1 = (r0, t0)"
    by (cases "spiflash_begin_async H s1")
  have 2: "scratch_zero c t0"
    using sz_begin_async [OF 1, of H] b by simp
  show ?thesis
  proof (cases "async s1 \<noteq> 0")
    case True
    then show ?thesis
      using assms(2) b 2 by (simp add: spiflash_exe_def Let_def s1_def [symmetric])
  next
    case False
    then obtain t where l: "spiflash_exe_loop fuel H (r0, t0) = Some (r', t)"
      and s': "s' = spiflash_finalize t"
      using assms(2) b
      by (auto simp add: spiflash_exe_def Let_def s1_def [symmetric] split: option.splits)
    from sz_exe_loop [OF 2 l] show ?thesis by (simp add: s')
  qed
qed

lemma sz_request:
  assumes "scratch_zero c s" "SPIFLASH_request fuel H s req = Some (r', s')"
  shows "scratch_zero c s'"
proof -
  have lo0: "scratch_zero c (s\<lparr>tx_internal_buf := (tx_internal_buf s)[0 := v]\<rparr>)" for v
    using assms(1) by (rule sz_low) simp
  have lo1: "scratch_zero c
      (s\<lparr>tx_internal_buf := ((tx_internal_buf s)[0 := v])[1 := w]\<rparr>)" for v w
    using sz_low [OF lo0 [of v], of 1 w] by simp
  show ?thesis
  proof (cases req)
    case (Req_write a l buf)
    then show ?thesis
      using assms by (auto simp add: SPIFLASH_write_def split: if_splits elim!: sz_exe [rotated])
  next
    case (Req_read a l buf)
    then show ?thesis
      using assms by (auto simp add: SPIFLASH_read_def split: if_splits elim!: sz_exe [rotated])
  next
    case (Req_fast_read a l buf)
    then show ?thesis
      using assms by (auto simp add: SPIFLASH_fast_read_def split: if_splits elim!: sz_exe [rotated])
  next
    case (Req_erase a l)
    then show ?thesis
      using assms by (auto simp add: SPIFLASH_erase_def split: if_splits elim!: sz_exe [rotated])
  next
    case Req_chip_erase
    then show ?thesis
      using assms by (auto simp add: SPIFLASH_chip_erase_def split: if_splits elim!: sz_exe [rotated])
  next
    case (Req_write_sr sr)
    then show ?thesis
      using assms lo0 [of sr]
      by (auto simp add: SPIFLASH_write_sr_def split: if_splits elim!: sz_exe [rotated])
  next
    case (Req_read_sr dst)
    then show ?thesis
      using assms by (auto simp add: SPIFLASH_read_sr_def split: if_splits elim!: sz_exe [rotated])
  next
    case (Req_read_sr_busy dst)
    then show ?thesis
      using assms by (auto simp add: SPIFLASH_read_sr_busy_def split: if_splits elim!: sz_exe [rotated])
  next
    case (Req_read_jedec_id dst)
    then show ?thesis
      using assms by (auto simp add: SPIFLASH_read_jedec_id_def split: if_splits elim!: sz_exe [rotated])
  next
    case (Req_read_product_id dst)
    then show ?thesis
      using assms by (auto simp add: SPIFLASH_read_product_id_def split: if_splits elim!: sz_exe [rotated])
  next
    case (Req_read_reg reg dst)
    then show ?thesis
      using assms lo0 [of reg]
      by (auto simp add: SPIFLASH_read_reg_def split: if_splits elim!: sz_exe [rotated])
  next
    case (Req_write_reg reg dat write_en wait_ms)
    then show ?thesis
      using assms lo1 [of reg dat]
      by (auto simp add: SPIFLASH_write_reg_def Let_def split: if_splits elim!: sz_exe [rotated])
  qed
qed

lemma sz_init:
  "1 \<le> unat (addr_sz c) \<Longrightarrow> unat (addr_sz c) \<le> 15 \<Longrightarrow>
   scratch_zero c (SPIFLASH_init c cmd cb a)"
  by (simp add: scratch_zero_def zero_after_def SPIFLASH_init_def)

text \<open>
  So on such a driver the fast read frame has its dummy bytes zero, the mandatory one
  included, as long as it fits the scratch buffer.
\<close>

lemma fast_read_frame_zero:
  assumes "scratch_zero c s"
    and "unat (addr_sz c) + 2 + unat (addr_dummy_sz c) \<le> 16"
    and "unat (addr_sz c) + 3 \<le> 16"
  shows "hal_log (snd (begin_fast_read H s)) =
     hal_log s @
     [HAL_cs True,
      HAL_txrx
        (read_data_fast (cmd_tbl s) # address_bytes s (addr s) @
         replicate (1 + unat (addr_dummy_sz c)) 0)
        (1 + unat (addr_sz c) + 1 + unat (addr_dummy_sz c))
        (unat (rd_len s))]"
proof -
  let ?n = "unat (addr_sz c)"
  let ?b = "tx_internal_buf s"
  have c: "cfg s = c" and n1: "1 \<le> ?n" and len: "length ?b = 16"
    and tl: "drop (Suc ?n) ?b = replicate (15 - ?n) 0"
    using assms(1) by (simp_all add: scratch_zero_def zero_after_def)
  have l3: "unat (addr_sz (cfg s)) + 3 \<le> length ?b"
    using assms(3) len c by simp
  have b1: "?b ! Suc ?n = 0"
  proof -
    have "?b ! Suc ?n = drop (Suc ?n) ?b ! 0"
      using assms(2) len by simp
    then show ?thesis using assms(2) by (simp add: tl)
  qed
  have d3: "drop (Suc (Suc (Suc ?n))) ?b = replicate (13 - ?n) 0"
  proof -
    have "drop (Suc (Suc (Suc ?n))) ?b = drop 2 (drop (Suc ?n) ?b)"
      by simp
    then show ?thesis by (simp add: tl)
  qed
  have "take (1 + ?n + 1 + unat (addr_dummy_sz c))
           (read_data_fast (cmd_tbl s) # address_bytes s (addr s) @
            ?b ! Suc ?n # 0 # drop (Suc (Suc (Suc ?n))) ?b)
      = read_data_fast (cmd_tbl s) # address_bytes s (addr s) @
         replicate (1 + unat (addr_dummy_sz c)) 0"
  proof -
    have "?b ! Suc ?n # 0 # drop (Suc (Suc (Suc ?n))) ?b = replicate (15 - ?n) 0"
      using assms(3) by (simp add: b1 d3 replicate_Suc [symmetric] del: replicate_Suc)
    then show ?thesis
      using assms(2) c by (simp add: min_def)
  qed
  then show ?thesis
    using fast_read_frame [OF l3, of H] c by simp
qed

end
